theory Spec2Isabelle
  imports Complex_Main "HOL-Library.List_Lexorder" "HOL-Library.Char_ord"
    "HOL-Library.Product_Lexorder" "HOL-Library.AList"
begin

section \<open>Errors\<close>

text \<open>
  The exception classes of \<^verbatim>\<open>scraper.exceptions\<close> that the scraper raises, and the
  built-in exceptions that its expressions can raise. A function that can raise returns
  \<open>error + 'a\<close>, with \<open>Inl\<close> for the exception.
\<close>

datatype error =
    InvalidDataFormat
  | InvalidSimilarityThreshold
  | NoProductsFound
  | ScraperRequestError
  | TypeError
  | ValueError
  | OverflowError

section \<open>Strings\<close>

text \<open>
  A Python \<^verbatim>\<open>str\<close> is modelled as a \<open>string\<close> whose characters are the code points
  0 to 255 (Latin-1); a Python \<^verbatim>\<open>float\<close> is modelled as a \<open>real\<close>.

  \<open>is_space\<close> is the whitespace class shared by \<^verbatim>\<open>str.strip()\<close> and the pattern \<^verbatim>\<open>\s\<close>;
  \<open>is_ascii_alnum\<close> is the class \<^verbatim>\<open>[A-Za-z0-9]\<close>; \<open>lower\<close> is \<^verbatim>\<open>str.lower()\<close>.
\<close>

definition is_space :: "char \<Rightarrow> bool" where
  "is_space c = (let n = (of_char c :: nat) in
     (9 \<le> n \<and> n \<le> 13) \<or> (28 \<le> n \<and> n \<le> 32) \<or> n = 133 \<or> n = 160)"

definition is_ascii_alnum :: "char \<Rightarrow> bool" where
  "is_ascii_alnum c = (let n = (of_char c :: nat) in
     (48 \<le> n \<and> n \<le> 57) \<or> (65 \<le> n \<and> n \<le> 90) \<or> (97 \<le> n \<and> n \<le> 122))"

definition lower_char :: "char \<Rightarrow> char" where
  "lower_char c = (let n = (of_char c :: nat) in
     if (65 \<le> n \<and> n \<le> 90) \<or> (192 \<le> n \<and> n \<le> 222 \<and> n \<noteq> 215)
     then char_of (n + 32) else c)"

definition lower :: "string \<Rightarrow> string" where
  "lower s = map lower_char s"

text \<open>
  \<open>sub_runs P s\<close> is \<^verbatim>\<open>re.sub(r"[P]+", " ", s)\<close>: every maximal run of characters of
  the class \<open>P\<close> is replaced by one space.
\<close>

function sub_runs :: "(char \<Rightarrow> bool) \<Rightarrow> string \<Rightarrow> string" where
  "sub_runs P [] = []"
| "sub_runs P (c # cs) =
     (if P c then CHR '' '' # sub_runs P (dropWhile P cs) else c # sub_runs P cs)"
  by pat_completeness auto
termination
  by (relation "measure (\<lambda>(P, s). length s)") (auto simp: length_dropWhile_le le_imp_less_Suc)

text \<open>\<^verbatim>\<open>str.strip()\<close>: whitespace removed at both ends.\<close>

definition strip :: "string \<Rightarrow> string" where
  "strip s = rev (dropWhile is_space (rev (dropWhile is_space s)))"

text \<open>
  \<^verbatim>\<open>utils.clean_text\<close>. Its \<^verbatim>\<open>isinstance(title, str)\<close> check cannot fail on a \<open>string\<close>.
\<close>

definition clean_text :: "string \<Rightarrow> string" where
  "clean_text title =
     (let cleaned = sub_runs (\<lambda>c. \<not> (is_ascii_alnum c \<or> is_space c)) title;
          cleaned = strip (sub_runs is_space cleaned)
      in cleaned)"

text \<open>
  The title normalisation of \<^verbatim>\<open>EbayScraper.get_product_info\<close>:
  \<^verbatim>\<open>utils.clean_text(title.lower())\<close>.
\<close>

definition normalize_title :: "string \<Rightarrow> string" where
  "normalize_title t = clean_text (lower t)"


section \<open>Text similarity\<close>

text \<open>
  Modelled from the spec: the matcher \<^verbatim>\<open>difflib.SequenceMatcher\<close> that
  \<open>get_similarity\<close> calls belongs to Python's standard library, not to the repository.
  The specification describes its result as the ratio \<open>2 * M / T\<close>, with \<open>M\<close> the total
  length of the matching contiguous blocks found by a longest-common-subsequence-style
  block matcher and \<open>T\<close> the combined length of both strings. The definitions below follow
  the library's algorithm for \<^verbatim>\<open>SequenceMatcher(None, a, b)\<close>: no junk predicate, and the
  automatic junk heuristic switched on.

  \<open>b2j b elt\<close> is the index list that \<^verbatim>\<open>__chain_b\<close> stores for the element \<open>elt\<close>: its
  positions in \<open>b\<close> in ascending order, or nothing when \<open>b\<close> has at least 200 elements and
  \<open>elt\<close> occupies more than \<open>n div 100 + 1\<close> of them (a popular element).
\<close>

type_synonym match = "nat \<times> nat \<times> nat"

definition b2j :: "string \<Rightarrow> char \<Rightarrow> nat list" where
  "b2j b elt =
     (let indices = filter (\<lambda>i. b ! i = elt) [0..<length b];
          n = length b
      in if n \<ge> 200 \<and> length indices > n div 100 + 1 then [] else indices)"

text \<open>The junk set is empty, because the junk predicate is \<^verbatim>\<open>None\<close>.\<close>

definition isbjunk :: "char \<Rightarrow> bool" where
  "isbjunk elt = False"

text \<open>\<^verbatim>\<open>j2len.get(j-1, 0)\<close>; for \<open>j = 0\<close> the key \<open>-1\<close> is never present.\<close>

definition j2lenget :: "(nat \<rightharpoonup> nat) \<Rightarrow> nat \<Rightarrow> nat" where
  "j2lenget j2len j = (if j = 0 then 0 else case j2len (j - 1) of None \<Rightarrow> 0 | Some v \<Rightarrow> v)"

text \<open>
  The inner loop of \<^verbatim>\<open>find_longest_match\<close> over the positions \<open>j\<close> of \<open>a[i]\<close> in \<open>b\<close>, with
  its \<^verbatim>\<open>continue\<close> and \<^verbatim>\<open>break\<close>; then the outer loop over the rows \<open>i\<close>.
\<close>

fun scan_row :: "nat \<Rightarrow> nat \<Rightarrow> nat \<Rightarrow> (nat \<rightharpoonup> nat) \<Rightarrow> nat list
    \<Rightarrow> (nat \<rightharpoonup> nat) \<times> match \<Rightarrow> (nat \<rightharpoonup> nat) \<times> match" where
  "scan_row i blo bhi j2len [] st = st"
| "scan_row i blo bhi j2len (j # js) (newj2len, besti, bestj, bestsize) =
     (if j < blo then scan_row i blo bhi j2len js (newj2len, besti, bestj, bestsize)
      else if j \<ge> bhi then (newj2len, besti, bestj, bestsize)
      else
        let k = j2lenget j2len j + 1;
            newj2len = newj2len(j \<mapsto> k)
        in if k > bestsize
           then scan_row i blo bhi j2len js (newj2len, i + 1 - k, j + 1 - k, k)
           else scan_row i blo bhi j2len js (newj2len, besti, bestj, bestsize))"

definition scan_rows :: "string \<Rightarrow> string \<Rightarrow> nat \<Rightarrow> nat \<Rightarrow> nat \<Rightarrow> nat
    \<Rightarrow> (nat \<rightharpoonup> nat) \<times> match" where
  "scan_rows a b alo ahi blo bhi =
     fold (\<lambda>i (j2len, best). scan_row i blo bhi j2len (b2j b (a ! i)) (Map.empty, best))
       [alo..<ahi] (Map.empty, (alo, blo, 0))"

text \<open>
  The four \<^verbatim>\<open>while\<close> loops that extend the best match: to the left and to the right,
  first over elements that are not junk (\<open>ok\<close> is the negated junk test), then over junk.
\<close>

function extend_left :: "(char \<Rightarrow> bool) \<Rightarrow> string \<Rightarrow> string \<Rightarrow> nat \<Rightarrow> nat \<Rightarrow> match \<Rightarrow> match" where
  "extend_left ok a b alo blo (besti, bestj, bestsize) =
     (if besti > alo \<and> bestj > blo \<and> ok (b ! (bestj - 1)) \<and> a ! (besti - 1) = b ! (bestj - 1)
      then extend_left ok a b alo blo (besti - 1, bestj - 1, bestsize + 1)
      else (besti, bestj, bestsize))"
  by pat_completeness auto
termination
  by (relation "measure (\<lambda>(ok, a, b, alo, blo, besti, bestj, bestsize). besti)") auto

function extend_right :: "(char \<Rightarrow> bool) \<Rightarrow> string \<Rightarrow> string \<Rightarrow> nat \<Rightarrow> nat \<Rightarrow> match \<Rightarrow> match" where
  "extend_right ok a b ahi bhi (besti, bestj, bestsize) =
     (if besti + bestsize < ahi \<and> bestj + bestsize < bhi \<and> ok (b ! (bestj + bestsize))
         \<and> a ! (besti + bestsize) = b ! (bestj + bestsize)
      then extend_right ok a b ahi bhi (besti, bestj, bestsize + 1)
      else (besti, bestj, bestsize))"
  by pat_completeness auto
termination
  by (relation "measure (\<lambda>(ok, a, b, ahi, bhi, besti, bestj, bestsize). ahi - (besti + bestsize))") auto

declare extend_left.simps [simp del] extend_right.simps [simp del]

definition find_longest_match :: "string \<Rightarrow> string \<Rightarrow> nat \<Rightarrow> nat \<Rightarrow> nat \<Rightarrow> nat \<Rightarrow> match" where
  "find_longest_match a b alo ahi blo bhi =
     (let best = snd (scan_rows a b alo ahi blo bhi);
          best = extend_left (\<lambda>c. \<not> isbjunk c) a b alo blo best;
          best = extend_right (\<lambda>c. \<not> isbjunk c) a b ahi bhi best;
          best = extend_left isbjunk a b alo blo best;
          best = extend_right isbjunk a b ahi bhi best
      in best)"


text \<open>
  The match returned for a window lies inside the window. The queue loop of
  \<^verbatim>\<open>get_matching_blocks\<close> terminates because of this.
\<close>

definition best_ok :: "nat \<Rightarrow> nat \<Rightarrow> match \<Rightarrow> bool" where
  "best_ok alo ahi best =
     (case best of (besti, bestj, bestsize) \<Rightarrow>
        alo \<le> besti \<and> ((bestsize = 0 \<and> besti = alo) \<or> besti + bestsize \<le> ahi))"

lemma j2lenget_le:
  assumes "\<forall>j v. j2len j = Some v \<longrightarrow> v \<le> c"
  shows "j2lenget j2len j \<le> c"
  using assms by (auto simp: j2lenget_def split: option.splits)

lemma scan_row_skip:
  "j < blo \<Longrightarrow> scan_row i blo bhi j2len (j # js) (new, best) = scan_row i blo bhi j2len js (new, best)"
  by (cases best) simp

lemma scan_row_break:
  "\<not> j < blo \<Longrightarrow> bhi \<le> j \<Longrightarrow> scan_row i blo bhi j2len (j # js) (new, best) = (new, best)"
  by (cases best) simp

lemma scan_row_step:
  "\<not> j < blo \<Longrightarrow> j < bhi \<Longrightarrow>
   scan_row i blo bhi j2len (j # js) (new, best) =
   scan_row i blo bhi j2len js
     (new(j \<mapsto> j2lenget j2len j + 1),
      if j2lenget j2len j + 1 > snd (snd best)
      then (i + 1 - (j2lenget j2len j + 1), j + 1 - (j2lenget j2len j + 1), j2lenget j2len j + 1)
      else best)"
  by (cases best) (simp add: Let_def)

lemma scan_row_bounds:
  assumes "alo \<le> i" "i < ahi" "\<forall>j v. j2len j = Some v \<longrightarrow> v \<le> i - alo"
    and "best_ok alo ahi best" "\<forall>j v. new j = Some v \<longrightarrow> v \<le> i + 1 - alo"
  shows "best_ok alo ahi (snd (scan_row i blo bhi j2len js (new, best)))
       \<and> (\<forall>j v. fst (scan_row i blo bhi j2len js (new, best)) j = Some v \<longrightarrow> v \<le> i + 1 - alo)"
  using assms(4,5)
proof (induction js arbitrary: new best)
  case Nil
  then show ?case by simp
next
  case (Cons j js)
  let ?k = "j2lenget j2len j + 1"
  let ?new = "new(j \<mapsto> ?k)"
  let ?best = "if ?k > snd (snd best) then (i + 1 - ?k, j + 1 - ?k, ?k) else best"
  have k: "?k \<le> i + 1 - alo" using j2lenget_le [OF assms(3), of j] assms(1) by simp
  have new: "\<forall>j' v. ?new j' = Some v \<longrightarrow> v \<le> i + 1 - alo"
    using Cons.prems(2) k by auto
  have "best_ok alo ahi (i + 1 - ?k, j + 1 - ?k, ?k)"
    using k assms(1,2) by (auto simp: best_ok_def)
  then have ok': "best_ok alo ahi ?best" using Cons.prems(1) by presburger
  consider "j < blo" | "\<not> j < blo" "bhi \<le> j" | "\<not> j < blo" "j < bhi" by linarith
  then show ?case
  proof cases
    case 1
    show ?thesis unfolding scan_row_skip [OF 1] by (rule Cons.IH [OF Cons.prems])
  next
    case 2
    show ?thesis unfolding scan_row_break [OF 2] using Cons.prems by simp
  next
    case 3
    show ?thesis unfolding scan_row_step [OF 3] by (rule Cons.IH [OF ok' new])
  qed
qed

lemma scan_rows_upto_bounds:
  assumes "alo \<le> h" "h \<le> ahi"
  shows "best_ok alo ahi (snd (fold (\<lambda>i (j2len, best). scan_row i blo bhi j2len (b2j b (a ! i)) (Map.empty, best))
            [alo..<h] (Map.empty, (alo, blo, 0))))
       \<and> (\<forall>j v. fst (fold (\<lambda>i (j2len, best). scan_row i blo bhi j2len (b2j b (a ! i)) (Map.empty, best))
            [alo..<h] (Map.empty, (alo, blo, 0))) j = Some v \<longrightarrow> v \<le> h - alo)"
  using assms
proof (induction h)
  case 0
  then show ?case by (simp add: best_ok_def)
next
  case (Suc h)
  show ?case
  proof (cases "alo = Suc h")
    case True
    then show ?thesis by (simp add: best_ok_def)
  next
    case False
    with Suc.prems have le: "alo \<le> h" "h \<le> ahi" "h < ahi" by auto
    let ?st = "fold (\<lambda>i (j2len, best). scan_row i blo bhi j2len (b2j b (a ! i)) (Map.empty, best))
            [alo..<h] (Map.empty, (alo, blo, 0))"
    obtain j2len best where st: "?st = (j2len, best)" by (cases ?st) auto
    from Suc.IH [OF le(1,2)] st
    have ih: "best_ok alo ahi best" "\<forall>j v. j2len j = Some v \<longrightarrow> v \<le> h - alo" by auto
    have "[alo..<Suc h] = [alo..<h] @ [h]" using le(1) by simp
    then show ?thesis
      using scan_row_bounds [OF le(1) le(3) ih(2) ih(1), of Map.empty blo bhi "b2j b (a ! h)"] st le(1)
      by (simp add: Suc_diff_le)
  qed
qed

lemma scan_rows_bounds: "best_ok alo ahi (snd (scan_rows a b alo ahi blo bhi))"
proof (cases "alo \<le> ahi")
  case True
  then show ?thesis using scan_rows_upto_bounds [of alo ahi ahi] by (simp add: scan_rows_def)
next
  case False
  then show ?thesis by (simp add: scan_rows_def best_ok_def)
qed

lemma extend_left_bounds:
  "best_ok alo ahi best \<Longrightarrow> best_ok alo ahi (extend_left ok a b alo blo best)"
proof (induction ok a b alo blo best rule: extend_left.induct)
  case (1 ok a b alo blo besti bestj bestsize)
  show ?case
  proof (cases "besti > alo \<and> bestj > blo \<and> ok (b ! (bestj - 1)) \<and> a ! (besti - 1) = b ! (bestj - 1)")
    case True
    have "best_ok alo ahi (besti - 1, bestj - 1, bestsize + 1)"
      using True "1.prems" by (auto simp: best_ok_def)
    with "1.IH" [OF True] True show ?thesis by (subst extend_left.simps) simp
  next
    case False
    with "1.prems" show ?thesis by (subst extend_left.simps) auto
  qed
qed

lemma extend_right_bounds:
  "best_ok alo ahi best \<Longrightarrow> best_ok alo ahi (extend_right ok a b ahi bhi best)"
proof (induction ok a b ahi bhi best rule: extend_right.induct)
  case (1 ok a b ahi bhi besti bestj bestsize)
  show ?case
  proof (cases "besti + bestsize < ahi \<and> bestj + bestsize < bhi \<and> ok (b ! (bestj + bestsize))
         \<and> a ! (besti + bestsize) = b ! (bestj + bestsize)")
    case True
    have "best_ok alo ahi (besti, bestj, bestsize + 1)"
      using True "1.prems" by (auto simp: best_ok_def)
    with "1.IH" [OF True] True show ?thesis by (subst extend_right.simps) simp
  next
    case False
    with "1.prems" show ?thesis by (subst extend_right.simps) auto
  qed
qed

lemma find_longest_match_bounds:
  "best_ok alo ahi (find_longest_match a b alo ahi blo bhi)"
  unfolding find_longest_match_def Let_def
  by (intro extend_right_bounds extend_left_bounds scan_rows_bounds)

lemma find_longest_match_range:
  assumes "find_longest_match a b alo ahi blo bhi = (i, j, k)" "k \<noteq> 0"
  shows "alo \<le> i \<and> i + k \<le> ahi"
  using find_longest_match_bounds [of alo ahi a b blo bhi] assms by (simp add: best_ok_def)


text \<open>
  \<^verbatim>\<open>get_matching_blocks\<close>. The queue is a stack whose top is the head of the list
  (\<^verbatim>\<open>queue.pop()\<close> takes the last element appended); the blocks found are sorted, adjacent
  blocks are merged, and the sentinel \<open>(la, lb, 0)\<close> is appended.
\<close>

type_synonym span = "nat \<times> nat \<times> nat \<times> nat"

definition queue_size :: "span list \<Rightarrow> nat" where
  "queue_size queue = sum_list (map (\<lambda>(alo, ahi, blo, bhi). 2 * (ahi - alo) + 1) queue)"

function match_queue :: "string \<Rightarrow> string \<Rightarrow> span list \<Rightarrow> match list \<Rightarrow> match list" where
  "match_queue a b [] matching_blocks = matching_blocks"
| "match_queue a b ((alo, ahi, blo, bhi) # queue) matching_blocks =
     (case find_longest_match a b alo ahi blo bhi of
        (i, j, k) \<Rightarrow>
          if k \<noteq> 0
          then match_queue a b
                 ((if i + k < ahi \<and> j + k < bhi then [(i + k, ahi, j + k, bhi)] else [])
                  @ (if alo < i \<and> blo < j then [(alo, i, blo, j)] else [])
                  @ queue)
                 (matching_blocks @ [(i, j, k)])
          else match_queue a b queue matching_blocks)"
  by pat_completeness auto
termination
proof (relation "measure (\<lambda>(a, b, queue, matching_blocks). queue_size queue)")
  show "wf (measure (\<lambda>(a, b, queue, matching_blocks). queue_size queue))" by simp
next
  fix a b :: string and alo ahi blo bhi :: nat and queue :: "span list"
    and matching_blocks :: "match list" and i y j k
  assume "(i, y) = find_longest_match a b alo ahi blo bhi" "(j, k) = y" "k \<noteq> 0"
  then have "alo \<le> i \<and> i + k \<le> ahi"
    using find_longest_match_range [of a b alo ahi blo bhi i j k] by simp
  then show "((a, b,
          (if i + k < ahi \<and> j + k < bhi then [(i + k, ahi, j + k, bhi)] else [])
          @ (if alo < i \<and> blo < j then [(alo, i, blo, j)] else []) @ queue,
          matching_blocks @ [(i, j, k)]),
         a, b, (alo, ahi, blo, bhi) # queue, matching_blocks)
        \<in> measure (\<lambda>(a, b, queue, matching_blocks). queue_size queue)"
    using \<open>k \<noteq> 0\<close> by (auto simp: queue_size_def)
next
  fix a b :: string and alo ahi blo bhi :: nat and queue :: "span list"
    and matching_blocks :: "match list"
  show "((a, b, queue, matching_blocks), a, b, (alo, ahi, blo, bhi) # queue, matching_blocks)
        \<in> measure (\<lambda>(a, b, queue, matching_blocks). queue_size queue)"
    by (simp add: queue_size_def)
qed

fun collapse :: "match \<Rightarrow> match list \<Rightarrow> match list" where
  "collapse (i1, j1, k1) [] = (if k1 \<noteq> 0 then [(i1, j1, k1)] else [])"
| "collapse (i1, j1, k1) ((i2, j2, k2) # rest) =
     (if i1 + k1 = i2 \<and> j1 + k1 = j2 then collapse (i1, j1, k1 + k2) rest
      else (if k1 \<noteq> 0 then [(i1, j1, k1)] else []) @ collapse (i2, j2, k2) rest)"

definition get_matching_blocks :: "string \<Rightarrow> string \<Rightarrow> match list" where
  "get_matching_blocks a b =
     (let la = length a; lb = length b;
          matching_blocks = match_queue a b [(0, la, 0, lb)] [];
          matching_blocks = sort matching_blocks;
          non_adjacent = collapse (0, 0, 0) matching_blocks
      in non_adjacent @ [(la, lb, 0)])"

text \<open>\<^verbatim>\<open>SequenceMatcher.ratio\<close>: \<open>2.0 * matches / length\<close>, and \<open>1.0\<close> when both strings are empty.\<close>

definition ratio :: "string \<Rightarrow> string \<Rightarrow> real" where
  "ratio a b =
     (let matches = sum_list (map (\<lambda>(i, j, k). k) (get_matching_blocks a b));
          len = length a + length b
      in if len \<noteq> 0 then 2 * real matches / real len else 1)"

text \<open>
  \<^verbatim>\<open>EbayScraper.get_similarity\<close>. \<open>is_punctuation\<close> is membership in
  \<^verbatim>\<open>string.punctuation\<close>, the 32 ASCII punctuation characters.
\<close>

definition is_punctuation :: "char \<Rightarrow> bool" where
  "is_punctuation c = (let n = (of_char c :: nat) in
     (33 \<le> n \<and> n \<le> 47) \<or> (58 \<le> n \<and> n \<le> 64) \<or> (91 \<le> n \<and> n \<le> 96) \<or> (123 \<le> n \<and> n \<le> 126))"

definition get_similarity :: "string \<Rightarrow> string \<Rightarrow> real" where
  "get_similarity string1 string2 =
     (let string1 = strip (lower string1);
          string2 = strip (lower string2);
          string1_clean = filter (\<lambda>c. \<not> is_punctuation c) string1;
          string2_clean = filter (\<lambda>c. \<not> is_punctuation c) string2
      in ratio string1_clean string2_clean)"

section \<open>Outlier filter\<close>

text \<open>
  \<^verbatim>\<open>np.median\<close> of a one-dimensional array: the middle element of the sorted values, or the
  mean of the two middle elements when the length is even. It is applied to non-empty
  arrays only (\<open>reject_outliers\<close> returns before it on an empty one).
\<close>

definition median :: "real list \<Rightarrow> real" where
  "median xs = (let s = sort xs; n = length s in
     if odd n then s ! (n div 2) else (s ! (n div 2 - 1) + s ! (n div 2)) / 2)"

text \<open>\<^verbatim>\<open>np.isclose(a, b)\<close> with its default tolerances \<^verbatim>\<open>rtol=1e-05\<close>, \<^verbatim>\<open>atol=1e-08\<close>.\<close>

definition isclose :: "real \<Rightarrow> real \<Rightarrow> bool" where
  "isclose a b = (\<bar>a - b\<bar> \<le> 1 / 10 ^ 8 + (1 / 10 ^ 5) * \<bar>b\<bar>)"

text \<open>\<^verbatim>\<open>np.where(mask)[0].tolist()\<close>: the positions where the mask holds.\<close>

definition np_where :: "bool list \<Rightarrow> nat list" where
  "np_where bs = filter (\<lambda>i. bs ! i) [0..<length bs]"

text \<open>\<^verbatim>\<open>utils.reject_outliers\<close>.\<close>

definition reject_outliers :: "real list \<Rightarrow> real \<Rightarrow> nat list" where
  "reject_outliers data m =
     (if length data = 0 then []
      else
        let distribution = map (\<lambda>x. \<bar>x - median data\<bar>) data;
            m_deviation = median distribution
        in if isclose m_deviation 0
           then np_where (map (\<lambda>d. d \<ge> m) distribution)
           else
             let standard = map (\<lambda>d. d / m_deviation) distribution
             in np_where (map (\<lambda>s. s \<ge> m) standard))"

text \<open>
  The rule in the words of the specification: \<open>d[i] = |values[i] - median(values)|\<close>,
  \<open>mad = median(d)\<close>; index \<open>i\<close> is an outlier iff \<open>d[i] \<ge> m\<close> when \<open>mad\<close> is close to
  zero, and iff \<open>d[i] / mad \<ge> m\<close> otherwise.
\<close>

definition deviations :: "real list \<Rightarrow> real list" where
  "deviations vs = map (\<lambda>v. \<bar>v - median vs\<bar>) vs"

definition mad_outlier :: "real list \<Rightarrow> real \<Rightarrow> nat \<Rightarrow> bool" where
  "mad_outlier vs m i =
     (let d = deviations vs; mad = median d
      in if isclose mad 0 then d ! i \<ge> m else d ! i / mad \<ge> m)"



section \<open>Price quality rating\<close>

text \<open>
  The rating is computed in double precision. A double is a finite value, an infinity or
  NaN. Rounding inside the range is not modelled (a finite result is its exact value);
  overflow is: under round-to-nearest a result whose magnitude reaches
  \<open>2 ^ 1024 - 2 ^ 970\<close> becomes an infinity. The arithmetic on infinities and NaN is that
  of IEEE 754, as \<^verbatim>\<open>numpy\<close> applies it without raising; a comparison with NaN is false.
\<close>

datatype pyfloat = Finite real | PosInf | NegInf | NaN

definition overflow_bound :: real where
  "overflow_bound = 2 ^ 1024 - 2 ^ 970"

definition round_double :: "real \<Rightarrow> pyfloat" where
  "round_double r =
     (if overflow_bound \<le> r then PosInf
      else if r \<le> - overflow_bound then NegInf
      else Finite r)"

fun fneg :: "pyfloat \<Rightarrow> pyfloat" where
  "fneg (Finite a) = Finite (- a)"
| "fneg PosInf = NegInf"
| "fneg NegInf = PosInf"
| "fneg NaN = NaN"

fun fadd :: "pyfloat \<Rightarrow> pyfloat \<Rightarrow> pyfloat" where
  "fadd NaN y = NaN"
| "fadd x NaN = NaN"
| "fadd (Finite a) (Finite b) = round_double (a + b)"
| "fadd PosInf NegInf = NaN"
| "fadd NegInf PosInf = NaN"
| "fadd PosInf y = PosInf"
| "fadd NegInf y = NegInf"
| "fadd x PosInf = PosInf"
| "fadd x NegInf = NegInf"

definition fsub :: "pyfloat \<Rightarrow> pyfloat \<Rightarrow> pyfloat" where
  "fsub x y = fadd x (fneg y)"

definition signed_inf :: "bool \<Rightarrow> pyfloat" where
  "signed_inf positive = (if positive then PosInf else NegInf)"

fun fmul :: "pyfloat \<Rightarrow> pyfloat \<Rightarrow> pyfloat" where
  "fmul NaN y = NaN"
| "fmul x NaN = NaN"
| "fmul (Finite a) (Finite b) = round_double (a * b)"
| "fmul (Finite a) PosInf = (if a = 0 then NaN else signed_inf (0 < a))"
| "fmul (Finite a) NegInf = (if a = 0 then NaN else signed_inf (a < 0))"
| "fmul PosInf (Finite b) = (if b = 0 then NaN else signed_inf (0 < b))"
| "fmul NegInf (Finite b) = (if b = 0 then NaN else signed_inf (b < 0))"
| "fmul PosInf PosInf = PosInf"
| "fmul PosInf NegInf = NegInf"
| "fmul NegInf PosInf = NegInf"
| "fmul NegInf NegInf = PosInf"

fun fdiv :: "pyfloat \<Rightarrow> pyfloat \<Rightarrow> pyfloat" where
  "fdiv NaN y = NaN"
| "fdiv x NaN = NaN"
| "fdiv (Finite a) (Finite b) =
     (if b = 0 then (if a = 0 then NaN else signed_inf (0 < a)) else round_double (a / b))"
| "fdiv (Finite a) PosInf = Finite 0"
| "fdiv (Finite a) NegInf = Finite 0"
| "fdiv PosInf (Finite b) = signed_inf (0 \<le> b)"
| "fdiv NegInf (Finite b) = signed_inf (b < 0)"
| "fdiv PosInf PosInf = NaN"
| "fdiv PosInf NegInf = NaN"
| "fdiv NegInf PosInf = NaN"
| "fdiv NegInf NegInf = NaN"

fun fexp :: "pyfloat \<Rightarrow> pyfloat" where
  "fexp (Finite a) = round_double (exp a)"
| "fexp PosInf = PosInf"
| "fexp NegInf = Finite 0"
| "fexp NaN = NaN"

fun fle :: "pyfloat \<Rightarrow> pyfloat \<Rightarrow> bool" where
  "fle NaN y = False"
| "fle x NaN = False"
| "fle (Finite a) (Finite b) = (a \<le> b)"
| "fle NegInf y = True"
| "fle x PosInf = True"
| "fle PosInf y = False"
| "fle x NegInf = False"

text \<open>\<^verbatim>\<open>np.clip(x, lo, hi)\<close>; it returns NaN on NaN.\<close>

fun np_clip :: "pyfloat \<Rightarrow> real \<Rightarrow> real \<Rightarrow> pyfloat" where
  "np_clip (Finite a) lo hi = Finite (min (max a lo) hi)"
| "np_clip PosInf lo hi = Finite hi"
| "np_clip NegInf lo hi = Finite lo"
| "np_clip NaN lo hi = NaN"

text \<open>
  An argument handed to \<^verbatim>\<open>float(...)\<close>: \<open>PyFloat x\<close> is a value that converts to the double
  \<open>x\<close> (a float, or a string that spells one, NaN and the infinities included), \<open>PyInt n\<close>
  an integer, whose conversion raises \<^verbatim>\<open>OverflowError\<close> when it is too large for a double,
  and \<open>PyNonNumeric\<close> a value on which the conversion raises \<^verbatim>\<open>TypeError\<close> or
  \<^verbatim>\<open>ValueError\<close>. \<open>int_to_float\<close> is also the conversion of the integer number of days
  when it is multiplied by a float.
\<close>

datatype pyvalue = PyFloat pyfloat | PyInt int | PyNonNumeric

definition int_to_float :: "int \<Rightarrow> error + pyfloat" where
  "int_to_float n =
     (if overflow_bound \<le> \<bar>real_of_int n\<bar> then Inl OverflowError else Inr (Finite (real_of_int n)))"

fun float_of :: "pyvalue \<Rightarrow> error + pyfloat" where
  "float_of (PyFloat x) = Inr x"
| "float_of (PyInt n) = int_to_float n"
| "float_of PyNonNumeric = Inl ValueError"

text \<open>
  \<^verbatim>\<open>utils.price_difference_rating\<close>. \<open>adjust_initial\<close> is the part that computes
  \<^verbatim>\<open>adjusted_initial\<close>. The handler turns \<^verbatim>\<open>TypeError\<close> and \<^verbatim>\<open>ValueError\<close> of the two
  conversions into \<open>InvalidDataFormat\<close>; any other exception propagates. The divisor
  \<^verbatim>\<open>adjusted_initial\<close> is never zero, because the initial price has passed the guard.
\<close>

definition adjust_initial :: "pyfloat \<Rightarrow> int \<Rightarrow> error + pyfloat" where
  "adjust_initial initial_price days =
     (let decay_constant = Finite (1 / 100);
          linear_factor = Finite (125 / 10000);
          threshold_days = 7
      in if days \<ge> threshold_days
         then
           case int_to_float (days - threshold_days) of
             Inl e \<Rightarrow> Inl e
           | Inr days_past_threshold \<Rightarrow>
               let penalty_amount =
                     fadd (fmul initial_price (fexp (fmul (fneg decay_constant) days_past_threshold)))
                          (fmul (fmul linear_factor days_past_threshold) initial_price)
               in Inr (fadd initial_price penalty_amount)
         else Inr initial_price)"

definition price_difference_rating :: "pyvalue \<Rightarrow> pyvalue \<Rightarrow> int \<Rightarrow> error + pyfloat" where
  "price_difference_rating initial final days =
     (case float_of initial of
        Inl e \<Rightarrow> (if e = TypeError \<or> e = ValueError then Inl InvalidDataFormat else Inl e)
      | Inr initial_price \<Rightarrow>
          (case float_of final of
             Inl e \<Rightarrow> (if e = TypeError \<or> e = ValueError then Inl InvalidDataFormat else Inl e)
           | Inr final_price \<Rightarrow>
               if fle initial_price (Finite 0) then Inl InvalidDataFormat
               else
                 case adjust_initial initial_price days of
                   Inl e \<Rightarrow> Inl e
                 | Inr adjusted_initial \<Rightarrow>
                     let rating =
                           (if fle adjusted_initial final_price then Finite 5
                            else
                              let price_difference = fsub adjusted_initial final_price
                              in fsub (Finite 5)
                                   (fmul (fdiv price_difference adjusted_initial) (Finite 5)))
                     in Inr (np_clip rating 0 5)))"

text \<open>
  The reference definition, in the words of the specification, over the real numbers:
  the penalty, the adjusted initial price, and the rating clamped to the interval from 0
  to 5.
\<close>

definition penalty_spec :: "real \<Rightarrow> int \<Rightarrow> real" where
  "penalty_spec initialPrice daysListed =
     initialPrice * exp (- (1 / 100) * real_of_int (daysListed - 7))
     + (125 / 10000) * real_of_int (daysListed - 7) * initialPrice"

definition adjusted_initial_spec :: "real \<Rightarrow> int \<Rightarrow> real" where
  "adjusted_initial_spec initialPrice daysListed =
     (if daysListed \<ge> 7 then initialPrice + penalty_spec initialPrice daysListed else initialPrice)"

definition quality_rating_spec :: "real \<Rightarrow> real \<Rightarrow> int \<Rightarrow> real" where
  "quality_rating_spec initialPrice finalPrice daysListed =
     (let adjustedInitial = adjusted_initial_spec initialPrice daysListed;
          r = (if adjustedInitial \<le> finalPrice then 5
               else 5 - (adjustedInitial - finalPrice) / adjustedInitial * 5)
      in if r < 0 then 0 else if 5 < r then 5 else r)"

section \<open>Candidates\<close>

text \<open>
  The dictionaries of the scraper. A product of \<^verbatim>\<open>get_product_info\<close> has the keys
  \<^verbatim>\<open>title\<close>, \<^verbatim>\<open>price\<close>, \<^verbatim>\<open>shipping\<close>, \<^verbatim>\<open>country\<close>, \<^verbatim>\<open>condition\<close>; the details stored under a
  title have \<^verbatim>\<open>price\<close>, \<^verbatim>\<open>shipping\<close>, \<^verbatim>\<open>country\<close>, \<^verbatim>\<open>condition\<close>, \<^verbatim>\<open>similarity\<close>. The type
  \<open>'p\<close> of a price is \<open>real\<close> for the products of a page and \<open>string\<close> for the candidates
  built from the output of the search. A \<^verbatim>\<open>Dict[str, dict]\<close> is an association list in
  insertion order; \<open>AList.update\<close> overwrites the value of a key in place and appends a
  new key at the end, as a Python dictionary does.
\<close>

record 'p listing =
  d_price :: 'p
  d_shipping :: 'p
  d_country :: string
  d_condition :: string

record 'p product = "'p listing" +
  d_title :: string

record 'p details = "'p listing" +
  d_similarity :: real

type_synonym 'p dict = "(string \<times> 'p details) list"

text \<open>
  The calls a claim speaks about are recorded in a trace: a page fetch
  (\<^verbatim>\<open>self.create_url()\<close> for a page number), a call of \<^verbatim>\<open>filter_products_by_similarity\<close>
  with its threshold, and a similarity computation for a product title.
\<close>

datatype event = CreateUrl nat | FilterProducts real | GetSimilarity string

type_synonym 'a traced = "event list \<times> (error + 'a)"

text \<open>
  \<^verbatim>\<open>EbayScraper.filter_products_by_similarity\<close>: the threshold check, then the loop over
  the products (\<open>filter_step\<close> is its body).
\<close>

definition filter_step :: "string \<Rightarrow> real \<Rightarrow> real product
    \<Rightarrow> event list \<times> real dict \<Rightarrow> event list \<times> real dict" where
  "filter_step target_title similarity_threshold product st =
     (case st of (trace, filtered_products) \<Rightarrow>
        let similarity = get_similarity (d_title product) target_title;
            trace = trace @ [GetSimilarity (d_title product)]
        in if similarity \<ge> similarity_threshold
           then (trace, AList.update (d_title product)
                   \<lparr>d_price = d_price product, d_shipping = d_shipping product,
                    d_country = d_country product, d_condition = d_condition product,
                    d_similarity = similarity\<rparr> filtered_products)
           else (trace, filtered_products))"

definition filter_products_by_similarity :: "real product list \<Rightarrow> string \<Rightarrow> real
    \<Rightarrow> real dict traced" where
  "filter_products_by_similarity product_info target_title similarity_threshold =
     (if \<not> (0 \<le> similarity_threshold \<and> similarity_threshold \<le> 1)
      then ([], Inl InvalidSimilarityThreshold)
      else
        case fold (filter_step target_title similarity_threshold) product_info ([], []) of
          (trace, filtered_products) \<Rightarrow> (trace, Inr filtered_products))"

text \<open>
  The document loaded by \<^verbatim>\<open>create_url\<close> is represented by what the five extraction
  methods return on it. \<open>remove_outliers\<close> and \<open>get_product_info\<close> are the methods of the
  same names; \<open>drop_indices\<close> is the comprehension
  \<^verbatim>\<open>[x for i, x in enumerate(xs) if i not in outlier_indices]\<close>.
\<close>

record soup =
  get_product_title :: "string list"
  get_product_price :: "real list"
  get_product_shipping :: "real list"
  get_product_country :: "string list"
  get_product_condition :: "string list"

definition drop_indices :: "nat list \<Rightarrow> 'a list \<Rightarrow> 'a list" where
  "drop_indices outlier_indices xs =
     map snd (filter (\<lambda>(i, x). i \<notin> set outlier_indices) (enumerate 0 xs))"

definition remove_outliers :: "string list \<Rightarrow> real list \<Rightarrow> real list \<Rightarrow> string list \<Rightarrow> string list
    \<Rightarrow> string list \<times> real list \<times> real list \<times> string list \<times> string list" where
  "remove_outliers titles prices shipping countries conditions =
     (let removal_threshold = 100
      in if length titles \<ge> removal_threshold
         then
           let outlier_indices = reject_outliers prices (3 / 2)
           in (drop_indices outlier_indices titles, drop_indices outlier_indices prices,
               drop_indices outlier_indices shipping, drop_indices outlier_indices countries,
               drop_indices outlier_indices conditions)
         else (titles, prices, shipping, countries, conditions))"

definition get_product_info :: "soup \<Rightarrow> real product list" where
  "get_product_info self_soup =
     (case remove_outliers (get_product_title self_soup) (get_product_price self_soup)
             (get_product_shipping self_soup) (get_product_country self_soup)
             (get_product_condition self_soup) of
        (titles, prices, shipping, countries, conditions) \<Rightarrow>
          map (\<lambda>(title, price, ship, country, condition).
                 \<lparr>d_price = price, d_shipping = ship, d_country = country,
                  d_condition = condition, d_title = clean_text (lower title)\<rparr>)
            (zip titles (zip prices (zip shipping (zip countries conditions)))))"

text \<open>\<^verbatim>\<open>EbayScraper.listing_product_similarity\<close>.\<close>

definition listing_product_similarity :: "soup \<Rightarrow> string \<Rightarrow> real \<Rightarrow> real dict traced" where
  "listing_product_similarity self_soup title similarity_threshold =
     (case filter_products_by_similarity (get_product_info self_soup) (lower title) similarity_threshold of
        (trace, r) \<Rightarrow> (FilterProducts similarity_threshold # trace, r))"



section \<open>Best-candidate selection\<close>

text \<open>
  \<^verbatim>\<open>EbayScraper.lowest_price_highest_similarity\<close>. \<open>best_scan\<close> is its \<^verbatim>\<open>for\<close> loop; the
  state is \<open>None\<close> while both items are \<^verbatim>\<open>None\<close>. \<open>py_min\<close> is \<^verbatim>\<open>min(xs, key=key)\<close>, which
  returns the first minimal element and raises \<^verbatim>\<open>ValueError\<close> on an empty list.
\<close>

fun best_scan :: "'p::linorder dict \<Rightarrow> ('p details \<times> 'p details) option
    \<Rightarrow> ('p details \<times> 'p details) option" where
  "best_scan [] st = st"
| "best_scan ((name, item_details) # rest) None =
     best_scan rest (Some (item_details, item_details))"
| "best_scan ((name, item_details) # rest) (Some (max_similarity_item, min_price_item)) =
     best_scan rest
       (Some (if d_similarity item_details > d_similarity max_similarity_item
              then item_details else max_similarity_item,
              if d_price item_details < d_price min_price_item
              then item_details else min_price_item))"

fun min_by :: "('a \<Rightarrow> 'k::linorder) \<Rightarrow> 'a \<Rightarrow> 'a list \<Rightarrow> 'a" where
  "min_by key best [] = best"
| "min_by key best (x # xs) = (if key x < key best then min_by key x xs else min_by key best xs)"

definition py_min :: "('a \<Rightarrow> 'k::linorder) \<Rightarrow> 'a list \<Rightarrow> error + 'a" where
  "py_min key xs = (case xs of [] \<Rightarrow> Inl ValueError | x # rest \<Rightarrow> Inr (min_by key x rest))"

definition lowest_price_highest_similarity :: "('p::linorder) dict \<Rightarrow> error + string \<times> 'p details" where
  "lowest_price_highest_similarity filtered_prices_descriptions =
     (if filtered_prices_descriptions = [] then Inl NoProductsFound
      else
        case best_scan filtered_prices_descriptions None of
          None \<Rightarrow> Inl TypeError
        | Some (max_similarity_item, min_price_item) \<Rightarrow>
            let max_similar_items =
                  filter (\<lambda>(item_name, item_details).
                            d_similarity item_details = d_similarity max_similarity_item)
                    filtered_prices_descriptions
            in py_min (\<lambda>x. d_price (snd x)) max_similar_items)"


section \<open>Adaptive multi-page search\<close>

text \<open>
  The format \<^verbatim>\<open>f"{x:,.2f}"\<close>: two decimals, rounded half to even, and a comma between
  groups of three digits of the integer part.
\<close>

definition round_half_even :: "real \<Rightarrow> int" where
  "round_half_even x =
     (let f = \<lfloor>x\<rfloor>; d = x - of_int f
      in if d < 1 / 2 then f else if 1 / 2 < d then f + 1 else if even f then f else f + 1)"

definition digit :: "nat \<Rightarrow> char" where
  "digit n = char_of (48 + n)"

function decimal :: "nat \<Rightarrow> string" where
  "decimal n = (if n < 10 then [digit n] else decimal (n div 10) @ [digit (n mod 10)])"
  by pat_completeness auto
termination
  by (relation "measure id") auto

declare decimal.simps [simp del]

fun group3 :: "string \<Rightarrow> string" where
  "group3 (a # b # c # d # rest) = a # b # c # CHR '','' # group3 (d # rest)"
| "group3 digits = digits"

definition format_money :: "real \<Rightarrow> string" where
  "format_money x =
     (let cents = nat (round_half_even (\<bar>x\<bar> * 100));
          whole = cents div 100;
          frac = cents mod 100
      in (if x < 0 then ''-'' else [])
         @ rev (group3 (rev (decimal whole)))
         @ ''.'' @ [digit (frac div 10), digit (frac mod 10)])"


text \<open>
  \<^verbatim>\<open>EbayScraper.find_viable_product\<close>. \<open>create_url\<close> is the page fetch, a function of the
  title and the page number that returns the loaded document or fails;
  \<open>ramp_down_loop\<close> is the \<^verbatim>\<open>while\<close> loop of the exception handler, \<open>search_page\<close> the body
  of the \<^verbatim>\<open>for\<close> loop up to the end of the handler, \<open>search_pages\<close> the \<^verbatim>\<open>for\<close> loop with its
  six accumulated lists. The \<^verbatim>\<open>while\<close> loop need not terminate for every value of its
  counter, so its result is an option and \<open>None\<close> stands for a run that never returns.
\<close>

type_synonym accum =
  "string list \<times> string list \<times> string list \<times> string list \<times> string list \<times> real list"

partial_function (option) ramp_down_loop :: "(real \<Rightarrow> real dict traced) \<Rightarrow> real \<Rightarrow> real \<Rightarrow> nat
    \<Rightarrow> event list \<Rightarrow> (event list \<times> (error + real dict \<times> real)) option" where
  "ramp_down_loop lps similarity_threshold ramp_down consecutively_empty trace =
     (case lps (max 0 (similarity_threshold - (ramp_down + 5 / 100))) of
        (events, Inl e) \<Rightarrow> Some (trace @ events, Inl e)
      | (events, Inr filtered_prices_descriptions) \<Rightarrow>
          if consecutively_empty = 2
          then Some (trace @ events, Inr (filtered_prices_descriptions, ramp_down + 5 / 100))
          else if filtered_prices_descriptions \<noteq> []
          then Some (trace @ events, Inr (filtered_prices_descriptions, ramp_down + 5 / 100))
          else ramp_down_loop lps similarity_threshold (ramp_down + 5 / 100)
                 (consecutively_empty + 1) (trace @ events))"

declare ramp_down_loop.simps [code]

definition search_page :: "(string \<Rightarrow> nat \<Rightarrow> error + soup) \<Rightarrow> string \<Rightarrow> nat \<Rightarrow> real
    \<Rightarrow> event list \<Rightarrow> (event list \<times> (error + real dict \<times> real)) option" where
  "search_page create_url title page_number ramp_down trace =
     (let similarity_threshold = 35 / 100
      in case create_url title page_number of
           Inl e \<Rightarrow> Some (trace @ [CreateUrl page_number], Inl e)
         | Inr self_soup \<Rightarrow>
             (case listing_product_similarity self_soup title similarity_threshold of
                (events, Inr filtered_prices_descriptions) \<Rightarrow>
                  if filtered_prices_descriptions \<noteq> []
                  then Some (trace @ [CreateUrl page_number] @ events,
                             Inr (filtered_prices_descriptions, ramp_down))
                  else ramp_down_loop (listing_product_similarity self_soup title)
                         similarity_threshold ramp_down 0 (trace @ [CreateUrl page_number] @ events)
              | (events, Inl NoProductsFound) \<Rightarrow>
                  ramp_down_loop (listing_product_similarity self_soup title)
                    similarity_threshold ramp_down 0 (trace @ [CreateUrl page_number] @ events)
              | (events, Inl e) \<Rightarrow> Some (trace @ [CreateUrl page_number] @ events, Inl e)))"

fun search_pages :: "(string \<Rightarrow> nat \<Rightarrow> error + soup) \<Rightarrow> string \<Rightarrow> nat list \<Rightarrow> real \<Rightarrow> accum
    \<Rightarrow> event list \<Rightarrow> (event list \<times> (error + accum)) option" where
  "search_pages create_url title [] ramp_down acc trace = Some (trace, Inr acc)"
| "search_pages create_url title (page_number # pages) ramp_down
       (descriptions, prices, shipping, countries, conditions, similarities) trace =
     (case search_page create_url title page_number ramp_down trace of
        None \<Rightarrow> None
      | Some (trace, Inl e) \<Rightarrow> Some (trace, Inl e)
      | Some (trace, Inr (filtered_prices_descriptions, ramp_down)) \<Rightarrow>
          search_pages create_url title pages ramp_down
            (descriptions @ map fst filtered_prices_descriptions,
             prices @ map (\<lambda>product. format_money (d_price product)) (map snd filtered_prices_descriptions),
             shipping @ map (\<lambda>product. format_money (d_shipping product)) (map snd filtered_prices_descriptions),
             countries @ map d_country (map snd filtered_prices_descriptions),
             conditions @ map d_condition (map snd filtered_prices_descriptions),
             similarities @ map d_similarity (map snd filtered_prices_descriptions))
            trace)"

definition find_viable_product :: "(string \<Rightarrow> nat \<Rightarrow> error + soup) \<Rightarrow> string \<Rightarrow> real
    \<Rightarrow> (event list \<times> (error + accum)) option" where
  "find_viable_product create_url title ramp_down =
     (case search_pages create_url title [0..<5] ramp_down ([], [], [], [], [], []) [] of
        None \<Rightarrow> None
      | Some (trace, Inl e) \<Rightarrow> Some (trace, Inl e)
      | Some (trace, Inr (descriptions, prices, shipping, countries, conditions, similarities)) \<Rightarrow>
          if descriptions = [] then Some (trace, Inl NoProductsFound)
          else Some (trace, Inr (descriptions, prices, shipping, countries, conditions, similarities)))"

section \<open>Observations on a trace\<close>

text \<open>
  \<open>thresholds\<close> lists the thresholds passed to \<open>filter_products_by_similarity\<close>, in the
  order of the calls, and \<open>fetched\<close> the page numbers fetched. \<open>ramp ramp_down k\<close> is the
  ramp-down accumulator after \<open>k\<close> iterations of the loop, each adding 0.05, and
  \<open>attempt\<close> the threshold of the \<open>k\<close>-th re-filter. \<open>loop_result lps thr rd n\<close> is what the
  loop returns when it stops after \<open>n\<close> iterations.
\<close>

fun thresholds :: "event list \<Rightarrow> real list" where
  "thresholds [] = []"
| "thresholds (FilterProducts t # es) = t # thresholds es"
| "thresholds (CreateUrl p # es) = thresholds es"
| "thresholds (GetSimilarity s # es) = thresholds es"

fun fetched :: "event list \<Rightarrow> nat list" where
  "fetched [] = []"
| "fetched (CreateUrl p # es) = p # fetched es"
| "fetched (FilterProducts t # es) = fetched es"
| "fetched (GetSimilarity s # es) = fetched es"

fun ramp :: "real \<Rightarrow> nat \<Rightarrow> real" where
  "ramp ramp_down 0 = ramp_down"
| "ramp ramp_down (Suc k) = ramp ramp_down k + 5 / 100"

definition attempt :: "real \<Rightarrow> real \<Rightarrow> nat \<Rightarrow> real" where
  "attempt similarity_threshold ramp_down k = max 0 (similarity_threshold - ramp ramp_down k)"

definition loop_result :: "(real \<Rightarrow> real dict traced) \<Rightarrow> real \<Rightarrow> real \<Rightarrow> nat
    \<Rightarrow> event list \<times> (error + real dict \<times> real)" where
  "loop_result lps thr rd n =
     (concat (map (\<lambda>k. fst (lps (attempt thr rd k))) [1..<Suc n]),
      case snd (lps (attempt thr rd n)) of
        Inl e \<Rightarrow> Inl e
      | Inr filtered \<Rightarrow> Inr (filtered, ramp rd n))"

section \<open>Example inputs\<close>

text \<open>Two candidates with the same similarity and the prices 20 and 10.\<close>

definition tied_pair :: "real dict" where
  "tied_pair =
     [(''first'', \<lparr>d_price = 20, d_shipping = 0, d_country = ''US'', d_condition = ''New'',
                   d_similarity = 9 / 10\<rparr>),
      (''second'', \<lparr>d_price = 10, d_shipping = 0, d_country = ''US'', d_condition = ''New'',
                    d_similarity = 9 / 10\<rparr>)]"

text \<open>A page without any listing.\<close>

definition empty_page :: soup where
  "empty_page = \<lparr>get_product_title = [], get_product_price = [], get_product_shipping = [],
     get_product_country = [], get_product_condition = []\<rparr>"




section \<open>Title normalisation is idempotent\<close>

definition is_lower_alnum :: "char \<Rightarrow> bool" where
  "is_lower_alnum c = (let n = (of_char c :: nat) in
     (48 \<le> n \<and> n \<le> 57) \<or> (97 \<le> n \<and> n \<le> 122))"

fun no_adjacent_space :: "string \<Rightarrow> bool" where
  "no_adjacent_space [] = True"
| "no_adjacent_space [c] = True"
| "no_adjacent_space (c # d # cs) = (\<not> (is_space c \<and> is_space d) \<and> no_adjacent_space (d # cs))"

lemma of_char_lt_256: "(of_char c :: nat) < 256"
  by (cases c) simp

lemma lower_char_alnum:
  "is_ascii_alnum (lower_char c) \<Longrightarrow> is_lower_alnum (lower_char c)"
  using of_char_lt_256 [of c]
  by (auto simp: is_ascii_alnum_def is_lower_alnum_def lower_char_def Let_def split: if_splits)

lemma lower_char_fixed:
  "is_lower_alnum c \<or> c = CHR '' '' \<Longrightarrow> lower_char c = c"
  by (auto simp: is_lower_alnum_def lower_char_def Let_def)

lemma lower_alnum_not_space: "is_lower_alnum c \<Longrightarrow> \<not> is_space c"
  by (auto simp: is_lower_alnum_def is_space_def Let_def)

lemma lower_alnum_alnum: "is_lower_alnum c \<Longrightarrow> is_ascii_alnum c"
  by (auto simp: is_lower_alnum_def is_ascii_alnum_def Let_def)

lemma space_is_space: "is_space (CHR '' '')"
  by (simp add: is_space_def)

lemma set_sub_runs: "set (sub_runs P s) \<subseteq> {c \<in> set s. \<not> P c} \<union> {CHR '' ''}"
proof (induction P s rule: sub_runs.induct)
  case (1 P)
  show ?case by simp
next
  case (2 P c cs)
  show ?case
  proof (cases "P c")
    case True
    have "set (dropWhile P cs) \<subseteq> set cs" by (auto dest: set_dropWhileD)
    with 2(1) [OF True] True show ?thesis by auto
  next
    case False
    with 2(2) [OF False] show ?thesis by auto
  qed
qed

lemma sub_runs_id: "\<forall>c \<in> set s. \<not> P c \<Longrightarrow> sub_runs P s = s"
  by (induction s) auto

lemma sub_runs_hd:
  "s \<noteq> [] \<Longrightarrow> \<not> P (hd s) \<Longrightarrow> sub_runs P s \<noteq> [] \<and> hd (sub_runs P s) = hd s"
  by (cases s) auto

lemma no_adjacent_space_Cons:
  "no_adjacent_space (c # s) = ((s = [] \<or> \<not> (is_space c \<and> is_space (hd s))) \<and> no_adjacent_space s)"
  by (cases s) auto

lemma no_adjacent_sub_runs: "no_adjacent_space (sub_runs is_space s)"
proof (induction "is_space" s rule: sub_runs.induct)
  case 1
  show ?case by simp
next
  case (2 c cs)
  show ?case
  proof (cases "is_space c")
    case True
    let ?d = "dropWhile is_space cs"
    have "sub_runs is_space ?d = [] \<or> \<not> is_space (hd (sub_runs is_space ?d))"
    proof (cases "?d = []")
      case True
      then have "sub_runs is_space ?d = sub_runs is_space []" by (rule arg_cong)
      then show ?thesis by simp
    next
      case False
      then have "\<not> is_space (hd ?d)" by (rule hd_dropWhile)
      with False show ?thesis using sub_runs_hd [of ?d is_space] by metis
    qed
    with 2(1) [OF True] True show ?thesis
      by (simp add: no_adjacent_space_Cons)
  next
    case False
    with 2(2) [OF False] show ?thesis
      by (simp add: no_adjacent_space_Cons)
  qed
qed

lemma sub_runs_space_fixed:
  "no_adjacent_space s \<Longrightarrow> \<forall>c \<in> set s. is_space c \<longrightarrow> c = CHR '' '' \<Longrightarrow>
   sub_runs is_space s = s"
proof (induction s rule: no_adjacent_space.induct)
  case 1
  show ?case by simp
next
  case (2 c)
  then show ?case by auto
next
  case (3 c d cs)
  then show ?case by (cases "is_space c") auto
qed

lemma no_adjacent_prefix: "no_adjacent_space (p @ q) \<Longrightarrow> no_adjacent_space p"
  by (induction p rule: no_adjacent_space.induct) auto

lemma no_adjacent_dropWhile: "no_adjacent_space s \<Longrightarrow> no_adjacent_space (dropWhile P s)"
  by (induction s rule: no_adjacent_space.induct) auto

lemma rstrip_prefix: "s = rev (dropWhile P (rev s)) @ rev (takeWhile P (rev s))"
  by (metis rev_append rev_rev_ident takeWhile_dropWhile_id)

lemma no_adjacent_strip: "no_adjacent_space s \<Longrightarrow> no_adjacent_space (strip s)"
  unfolding strip_def
  using no_adjacent_prefix [of "rev (dropWhile is_space (rev (dropWhile is_space s)))"
      "rev (takeWhile is_space (rev (dropWhile is_space s)))"]
    rstrip_prefix [of "dropWhile is_space s" is_space] no_adjacent_dropWhile [of s is_space]
  by simp

lemma set_strip: "set (strip s) \<subseteq> set s"
  unfolding strip_def by (auto dest!: set_dropWhileD)

lemma dropWhile_hd_id: "xs = [] \<or> \<not> P (hd xs) \<Longrightarrow> dropWhile P xs = xs"
  by (cases xs) auto

lemma strip_idem: "strip (strip s) = strip s"
proof -
  let ?y = "dropWhile is_space s"
  let ?w = "rev (dropWhile is_space (rev ?y))"
  have hd_y: "?y = [] \<or> \<not> is_space (hd ?y)" by (metis hd_dropWhile)
  have pre: "?y = ?w @ rev (takeWhile is_space (rev ?y))" by (rule rstrip_prefix)
  have "?w = [] \<or> \<not> is_space (hd ?w)"
  proof (cases "?w = []")
    case True then show ?thesis by simp
  next
    case False
    then have "hd ?y = hd ?w" using pre by (metis hd_append2)
    moreover have "?y \<noteq> []" using False by (metis dropWhile.simps(1) rev.simps(1))
    ultimately show ?thesis using hd_y by auto
  qed
  then have "dropWhile is_space ?w = ?w" by (rule dropWhile_hd_id)
  then show ?thesis unfolding strip_def by simp
qed

lemma normalize_title_chars:
  assumes "c \<in> set (normalize_title t)"
  shows "is_lower_alnum c \<or> c = CHR '' ''"
proof -
  let ?u = "sub_runs (\<lambda>c. \<not> (is_ascii_alnum c \<or> is_space c)) (lower t)"
  let ?v = "sub_runs is_space ?u"
  from assms have "c \<in> set ?v"
    using set_strip [of ?v] by (auto simp: normalize_title_def clean_text_def Let_def)
  then have "(c \<in> set ?u \<and> \<not> is_space c) \<or> c = CHR '' ''"
    using set_sub_runs [of is_space ?u] by auto
  moreover have "c \<in> set ?u \<Longrightarrow> (c \<in> set (lower t) \<and> (is_ascii_alnum c \<or> is_space c)) \<or> c = CHR '' ''"
    using set_sub_runs [of "\<lambda>c. \<not> (is_ascii_alnum c \<or> is_space c)" "lower t"] by auto
  ultimately show ?thesis
    by (auto simp: lower_def dest: lower_char_alnum)
qed

text \<open>
  Claim C8. Title normalisation (lowercasing, then \<open>clean_text\<close>) is idempotent: normalising
  an already normalised title changes nothing.
\<close>

theorem normalize_title_idempotent: "normalize_title (normalize_title t) = normalize_title t"
proof -
  let ?w = "normalize_title t"
  let ?u = "sub_runs (\<lambda>c. \<not> (is_ascii_alnum c \<or> is_space c)) (lower t)"
  have w: "?w = strip (sub_runs is_space ?u)"
    by (simp add: normalize_title_def clean_text_def Let_def)
  have chars: "\<forall>c \<in> set ?w. is_lower_alnum c \<or> c = CHR '' ''"
    using normalize_title_chars by blast
  have low: "lower ?w = ?w"
    unfolding lower_def using chars by (simp add: map_idI lower_char_fixed)
  have s1: "sub_runs (\<lambda>c. \<not> (is_ascii_alnum c \<or> is_space c)) ?w = ?w"
    using chars by (intro sub_runs_id) (auto simp: space_is_space dest: lower_alnum_alnum)
  have "no_adjacent_space ?w"
    unfolding w by (intro no_adjacent_strip no_adjacent_sub_runs)
  moreover have "\<forall>c \<in> set ?w. is_space c \<longrightarrow> c = CHR '' ''"
    using chars lower_alnum_not_space by blast
  ultimately have s2: "sub_runs is_space ?w = ?w" by (rule sub_runs_space_fixed)
  have s3: "strip ?w = ?w" unfolding w by (rule strip_idem)
  have "normalize_title ?w = strip (sub_runs is_space (sub_runs (\<lambda>c. \<not> (is_ascii_alnum c \<or> is_space c)) (lower ?w)))"
    by (simp add: normalize_title_def clean_text_def Let_def)
  then show ?thesis using low s1 s2 s3 by simp
qed

section \<open>The outlier filter follows the MAD rule\<close>

lemma np_where_set: "set (np_where bs) = {i. i < length bs \<and> bs ! i}"
  by (auto simp: np_where_def)

lemma np_where_sorted: "sorted_wrt (<) (np_where bs)"
  unfolding np_where_def by (simp add: sorted_wrt_filter)

lemma np_where_map: "set (np_where (map f xs)) = {i. i < length xs \<and> f (xs ! i)}"
  by (auto simp: np_where_def)

lemma ro_close:
  assumes "data \<noteq> []" "isclose (median (deviations data)) 0"
  shows "reject_outliers data m = np_where (map (\<lambda>d. d \<ge> m) (deviations data))"
  using assms unfolding reject_outliers_def deviations_def Let_def by simp

lemma ro_far:
  assumes "data \<noteq> []" "\<not> isclose (median (deviations data)) 0"
  shows "reject_outliers data m =
      np_where (map (\<lambda>s. s \<ge> m) (map (\<lambda>d. d / median (deviations data)) (deviations data)))"
  using assms unfolding reject_outliers_def deviations_def Let_def by simp


lemma length_deviations: "length (deviations vs) = length vs"
  by (simp add: deviations_def)

lemma reject_outliers_rule:
  assumes "data \<noteq> []"
  shows "set (reject_outliers data m) = {i. i < length data \<and> mad_outlier data m i}"
proof (cases "isclose (median (deviations data)) 0")
  case True
  have "set (reject_outliers data m) = {i. i < length data \<and> deviations data ! i \<ge> m}"
    unfolding ro_close [OF assms True] np_where_map length_deviations ..
  moreover have "\<And>i. mad_outlier data m i = (deviations data ! i \<ge> m)"
    unfolding mad_outlier_def Let_def using True by simp
  ultimately show ?thesis by simp
next
  case False
  let ?mad = "median (deviations data)"
  have "set (reject_outliers data m) = {i. i < length data \<and> deviations data ! i / ?mad \<ge> m}"
    unfolding ro_far [OF assms False] np_where_map length_map length_deviations
    by (rule Collect_cong) (simp add: length_deviations cong: conj_cong)
  moreover have "\<And>i. mad_outlier data m i = (deviations data ! i / ?mad \<ge> m)"
    unfolding mad_outlier_def Let_def using False by simp
  ultimately show ?thesis by simp
qed

lemma median_const:
  assumes "xs \<noteq> []" "\<forall>x \<in> set xs. x = c"
  shows "median xs = c"
proof -
  let ?s = "sort xs"
  have len: "length ?s = length xs" by simp
  have all: "\<And>k. k < length xs \<Longrightarrow> ?s ! k = c"
    using assms(2) by (metis len nth_mem set_sort)
  have pos: "0 < length xs" using assms(1) by simp
  show ?thesis
  proof (cases "odd (length xs)")
    case True
    then show ?thesis using all [of "length xs div 2"] pos by (simp add: median_def Let_def)
  next
    case False
    then have "2 \<le> length xs" using pos by presburger
    then have "length xs div 2 - 1 < length xs" "length xs div 2 < length xs" by auto
    then show ?thesis using False all by (simp add: median_def Let_def)
  qed
qed

lemma reject_outliers_identical:
  assumes "0 < m" "\<forall>x \<in> set data. x = c"
  shows "reject_outliers data m = []"
proof (cases "data = []")
  case True
  then show ?thesis by (simp add: reject_outliers_def)
next
  case False
  have med: "median data = c" using False assms(2) by (rule median_const)
  have dist: "map (\<lambda>x. \<bar>x - c\<bar>) data = replicate (length data) 0"
    using assms(2) by (intro nth_equalityI) simp_all
  have "median (replicate (length data) 0) = 0"
    using False by (intro median_const) auto
  then show ?thesis
    using False assms(1) by (simp add: reject_outliers_def Let_def med dist isclose_def np_where_def)
qed


text \<open>
  Claim C5, as amended. For every non-empty list of values and every \<open>m\<close>,
  \<open>reject_outliers\<close> returns, in ascending order, exactly the indices that satisfy the
  MAD rule; \<open>reject_outliers [1,1,1,10] 1.5 = [3]\<close>; and for every sample whose values are
  all identical and every \<open>m > 0\<close> the returned index list is empty.
\<close>

theorem reject_outliers_mad_rule:
  "(data \<noteq> [] \<longrightarrow>
      sorted_wrt (<) (reject_outliers data m) \<and>
      set (reject_outliers data m) = {i. i < length data \<and> mad_outlier data m i})
   \<and> reject_outliers [1, 1, 1, 10] (3 / 2) = [3]
   \<and> (0 < k \<longrightarrow> (\<forall>x \<in> set vs. x = c) \<longrightarrow> reject_outliers vs k = [])"
proof (intro conjI impI)
  assume "data \<noteq> []"
  then show "set (reject_outliers data m) = {i. i < length data \<and> mad_outlier data m i}"
    by (rule reject_outliers_rule)
next
  show "sorted_wrt (<) (reject_outliers data m)"
    by (simp add: reject_outliers_def Let_def np_where_sorted)
next
  show "reject_outliers [1, 1, 1, 10] (3 / 2) = [3]"
    by (simp add: reject_outliers_def median_def Let_def isclose_def np_where_def)
next
  assume "0 < k" "\<forall>x \<in> set vs. x = c"
  then show "reject_outliers vs k = []"
    by (rule reject_outliers_identical)
qed

theorem reject_outliers_mad_rule_witness:
  "sorted_wrt (<) (reject_outliers [1, 1, 1, 10] (3 / 2))
   \<and> set (reject_outliers [1, 1, 1, 10] (3 / 2))
       = {i. i < length [1, 1, 1, 10 :: real] \<and> mad_outlier [1, 1, 1, 10] (3 / 2) i}
   \<and> reject_outliers [2, 2] 1 = []"
proof -
  have a: "[1, 1, 1, 10 :: real] \<noteq> []" by simp
  have b: "(0 :: real) < 1" by simp
  have c: "\<forall>x \<in> set [2, 2 :: real]. x = 2" by simp
  show ?thesis
    using reject_outliers_mad_rule [of "[1, 1, 1, 10]" "3 / 2" 1 "[2, 2]" 2] a b c
    by blast
qed

text \<open>
  With \<open>m = 0\<close> a sample of identical values has every deviation equal to \<open>0 \<ge> m\<close>, so
  every index is returned.
\<close>

theorem reject_outliers_identical_counterexample:
  "reject_outliers [1, 1] 0 = [0, 1]"
  by (simp add: reject_outliers_def median_def Let_def isclose_def np_where_def)

section \<open>The rating and its reference definition\<close>

text \<open>
  Where no intermediate result overflows, the code returns the value of the reference
  definition, which lies between 0 and 5.
\<close>

lemma overflow_bound_large: "5 < overflow_bound"
  by (simp add: overflow_bound_def)

lemma round_double_finite: "\<bar>r\<bar> < overflow_bound \<Longrightarrow> round_double r = Finite r"
  by (auto simp: round_double_def)

lemma adjust_initial_finite:
  assumes p: "0 < p" and d: "real_of_int (d - 7) < overflow_bound"
    and a: "adjusted_initial_spec p d < overflow_bound"
  shows "adjust_initial (Finite p) d = Inr (Finite (adjusted_initial_spec p d))"
proof (cases "d \<ge> 7")
  case False
  then show ?thesis by (simp add: adjust_initial_def adjusted_initial_spec_def)
next
  case True
  define x where "x = real_of_int (d - 7)"
  have x0: "0 \<le> x" using True by (simp add: x_def)
  have xb: "x < overflow_bound" using d by (simp add: x_def)
  define e where "e = exp (- (1 / 100) * x)"
  have e: "0 < e" "e \<le> 1" using x0 by (simp_all add: e_def)
  have adj: "adjusted_initial_spec p d = p + (p * e + (125 / 10000) * x * p)"
    using True by (simp add: adjusted_initial_spec_def penalty_spec_def x_def e_def)
  have t1: "0 \<le> p * e" using p e by simp
  have t2: "0 \<le> (125 / 10000) * x * p" using p x0 by simp
  have b: "p + (p * e + (125 / 10000) * x * p) < overflow_bound" using a adj by simp
  have i: "int_to_float (d - 7) = Inr (Finite x)"
    using x0 xb by (simp add: int_to_float_def x_def)
  have m1: "fmul (fneg (Finite (1 / 100))) (Finite x) = Finite (- (1 / 100) * x)"
    using x0 xb by (simp add: round_double_finite)
  have "round_double e = Finite e"
    using e overflow_bound_large by (intro round_double_finite) simp
  then have m2: "fexp (Finite (- (1 / 100) * x)) = Finite e"
    unfolding e_def by (simp only: fexp.simps)
  have m3: "fmul (Finite p) (Finite e) = Finite (p * e)"
    using t1 t2 b p by (simp add: round_double_finite)
  have m4: "fmul (Finite (125 / 10000)) (Finite x) = Finite ((125 / 10000) * x)"
    using x0 xb by (simp add: round_double_finite)
  have m5: "fmul (Finite ((125 / 10000) * x)) (Finite p) = Finite ((125 / 10000) * x * p)"
    using t1 t2 b p by (simp add: round_double_finite)
  have m6: "fadd (Finite (p * e)) (Finite ((125 / 10000) * x * p)) = Finite (p * e + (125 / 10000) * x * p)"
    using t1 t2 b p by (simp add: round_double_finite)
  have m7: "fadd (Finite p) (Finite (p * e + (125 / 10000) * x * p)) =
      Finite (p + (p * e + (125 / 10000) * x * p))"
    using t1 t2 b p by (simp add: round_double_finite)
  show ?thesis
    unfolding adjust_initial_def Let_def adj using True
    by (simp only: i m1 m2 m3 m4 m5 m6 m7 if_True sum.case)
qed

lemma rating_finite:
  assumes p: "0 < p" and f: "0 \<le> f" and d: "real_of_int (d - 7) < overflow_bound"
    and a: "adjusted_initial_spec p d < overflow_bound"
  shows "price_difference_rating (PyFloat (Finite p)) (PyFloat (Finite f)) d =
     Inr (Finite (quality_rating_spec p f d))"
proof -
  define a' where "a' = adjusted_initial_spec p d"
  have pos: "0 < a'"
  proof (cases "d \<ge> 7")
    case True
    then have "0 \<le> penalty_spec p d" using p by (simp add: penalty_spec_def)
    then show ?thesis using True p by (simp add: a'_def adjusted_initial_spec_def)
  next
    case False
    then show ?thesis using p by (simp add: a'_def adjusted_initial_spec_def)
  qed
  have adj: "adjust_initial (Finite p) d = Inr (Finite a')"
    unfolding a'_def by (rule adjust_initial_finite [OF p d a])
  have ab: "a' < overflow_bound" using a by (simp add: a'_def)
  show ?thesis
  proof (cases "a' \<le> f")
    case True
    then show ?thesis
      using p by (simp add: price_difference_rating_def adj quality_rating_spec_def a'_def [symmetric])
  next
    case False
    then have lt: "f < a'" by simp
    define q where "q = (a' - f) / a'"
    have q: "0 < q" "q \<le> 1" using lt f pos by (simp_all add: q_def)
    have s1: "fsub (Finite a') (Finite f) = Finite (a' - f)"
      using lt f ab by (simp add: fsub_def round_double_finite)
    have "round_double q = Finite q"
      using q overflow_bound_large by (intro round_double_finite) simp
    then have s2: "fdiv (Finite (a' - f)) (Finite a') = Finite q"
      unfolding q_def using pos by (simp only: fdiv.simps) simp
    have s3: "fmul (Finite q) (Finite 5) = Finite (q * 5)"
      using q overflow_bound_large by (simp add: round_double_finite)
    have s4: "fsub (Finite 5) (Finite (q * 5)) = Finite (5 - q * 5)"
      using q overflow_bound_large by (simp add: fsub_def round_double_finite)
    have nle: "\<not> fle (Finite p) (Finite 0)" "\<not> fle (Finite a') (Finite f)"
      using p False by simp_all
    have "price_difference_rating (PyFloat (Finite p)) (PyFloat (Finite f)) d =
        Inr (np_clip (Finite (5 - q * 5)) 0 5)"
      unfolding price_difference_rating_def Let_def
      by (simp only: float_of.simps sum.case adj nle if_False s1 s2 s3 s4)
    moreover have "quality_rating_spec p f d = min (max (5 - q * 5) 0) 5"
      using False q by (simp add: quality_rating_spec_def a'_def [symmetric] q_def [symmetric] Let_def)
    ultimately show ?thesis by simp
  qed
qed

lemma quality_rating_spec_range:
  "0 \<le> quality_rating_spec p f d \<and> quality_rating_spec p f d \<le> 5"
  by (simp add: quality_rating_spec_def Let_def)

lemma rating_fails:
  "price_difference_rating PyNonNumeric y d = Inl InvalidDataFormat"
  "price_difference_rating (PyFloat x) PyNonNumeric d = Inl InvalidDataFormat"
  "p \<le> 0 \<Longrightarrow> price_difference_rating (PyFloat (Finite p)) (PyFloat z) d = Inl InvalidDataFormat"
  by (simp_all add: price_difference_rating_def)

text \<open>
  Claim C7. For every numeric initial price above zero, numeric final price and integer
  number of days, \<open>price_difference_rating\<close> should return a value between 0 and 5, equal to
  the reference definition. The code does not: with the initial price \<open>10 ^ 308\<close>, the
  final price 50 and 7 days, the adjusted initial price \<open>2 * 10 ^ 308\<close> overflows to
  infinity, the rating is \<open>5 - (inf / inf) * 5\<close>, which is NaN, the clamp leaves NaN as it
  is, and NaN is returned; a NaN initial price passes the guard and gives NaN as well.
\<close>

theorem price_difference_rating_overflow:
  "price_difference_rating (PyFloat (Finite (10 ^ 308))) (PyFloat (Finite 50)) 7 = Inr NaN
   \<and> price_difference_rating (PyFloat NaN) (PyFloat (Finite 50)) 0 = Inr NaN"
  by (simp add: price_difference_rating_def adjust_initial_def int_to_float_def Let_def
      fsub_def round_double_def overflow_bound_def)

section \<open>Equal strings have similarity one\<close>

text \<open>
  For equal strings the first match found is the whole string. \<open>npr s i\<close> is the length
  of the run of elements that are not popular ending at position \<open>i\<close>; the row scan visits
  the diagonal cell \<open>(i, i)\<close>, whose length is \<open>npr s i\<close>, before any other cell that could
  be as long, so the best match stays on the diagonal.
\<close>

definition nonpop :: "string \<Rightarrow> char \<Rightarrow> bool" where
  "nonpop s c = (b2j s c \<noteq> [])"

fun npr :: "string \<Rightarrow> nat \<Rightarrow> nat" where
  "npr s 0 = (if nonpop s (s ! 0) then 1 else 0)"
| "npr s (Suc i) = (if nonpop s (s ! Suc i) then npr s i + 1 else 0)"

lemma b2j_mem:
  assumes "j \<in> set (b2j s c)"
  shows "s ! j = c \<and> j < length s \<and> nonpop s c"
proof -
  have "b2j s c \<noteq> []" using assms by auto
  moreover have "s ! j = c \<and> j < length s"
    using assms by (auto simp: b2j_def Let_def split: if_splits)
  ultimately show ?thesis by (simp add: nonpop_def)
qed

lemma b2j_self:
  "i < length s \<Longrightarrow> nonpop s (s ! i) \<Longrightarrow> i \<in> set (b2j s (s ! i))"
  by (auto simp: b2j_def nonpop_def Let_def split: if_splits)

lemma b2j_sorted: "sorted_wrt (<) (b2j s c)"
  by (simp add: b2j_def Let_def sorted_wrt_filter)

lemma npr_nonpop_pos: "nonpop s (s ! j) \<Longrightarrow> 1 \<le> npr s j"
  by (cases j) auto

lemma npr_pred: "nonpop s (s ! j) \<Longrightarrow> 0 < j \<Longrightarrow> npr s j = npr s (j - 1) + 1"
  by (cases j) auto

lemma npr_pop: "\<not> nonpop s (s ! j) \<Longrightarrow> npr s j = 0"
  by (cases j) auto

definition row_inv :: "string \<Rightarrow> nat \<Rightarrow> (nat \<rightharpoonup> nat) \<times> match \<Rightarrow> bool" where
  "row_inv s i st =
     (case st of (j2len, besti, bestj, bestsize) \<Rightarrow>
        besti = bestj
        \<and> (\<forall>j v. j2len j = Some v \<longrightarrow> 0 < i \<and> v \<le> npr s (i - 1) \<and> v \<le> npr s j)
        \<and> (0 < i \<and> nonpop s (s ! (i - 1)) \<longrightarrow> j2len (i - 1) = Some (npr s (i - 1)))
        \<and> (\<forall>i' < i. npr s i' \<le> bestsize))"

lemma j2lenget_cases:
  "j2lenget j2len j = 0 \<or> (0 < j \<and> j2len (j - 1) = Some (j2lenget j2len j))"
  by (auto simp: j2lenget_def split: option.splits)

lemma k_bounds:
  assumes inv: "row_inv s i (j2len, best0)"
    and np: "nonpop s (s ! i)" and eq: "s ! j = s ! i"
  shows "j2lenget j2len j + 1 \<le> npr s i" "j2lenget j2len j + 1 \<le> npr s j"
proof -
  have npj: "nonpop s (s ! j)" using np eq by simp
  obtain bi bj bs where b: "best0 = (bi, bj, bs)" by (cases best0) auto
  from j2lenget_cases [of j2len j]
  show "j2lenget j2len j + 1 \<le> npr s i"
  proof
    assume "j2lenget j2len j = 0"
    then show ?thesis using npr_nonpop_pos [OF np] by simp
  next
    assume h: "0 < j \<and> j2len (j - 1) = Some (j2lenget j2len j)"
    then have "0 < i \<and> j2lenget j2len j \<le> npr s (i - 1)"
      using inv by (auto simp: row_inv_def b)
    then show ?thesis using npr_pred [OF np] by simp
  qed
  from j2lenget_cases [of j2len j]
  show "j2lenget j2len j + 1 \<le> npr s j"
  proof
    assume "j2lenget j2len j = 0"
    then show ?thesis using npr_nonpop_pos [OF npj] by simp
  next
    assume h: "0 < j \<and> j2len (j - 1) = Some (j2lenget j2len j)"
    then have "j2lenget j2len j \<le> npr s (j - 1)"
      using inv by (auto simp: row_inv_def b)
    then show ?thesis using npr_pred [OF npj] h by simp
  qed
qed

lemma k_diag:
  assumes inv: "row_inv s i (j2len, best0)" and np: "nonpop s (s ! i)"
  shows "j2lenget j2len i + 1 = npr s i"
proof (cases i)
  case 0
  then show ?thesis using np by (simp add: j2lenget_def)
next
  case (Suc i')
  obtain bi bj bs where b: "best0 = (bi, bj, bs)" by (cases best0) auto
  show ?thesis
  proof (cases "nonpop s (s ! i')")
    case True
    then have "j2len i' = Some (npr s i')" using inv Suc by (simp add: row_inv_def b)
    then show ?thesis using np Suc by (simp add: j2lenget_def)
  next
    case False
    then have z: "npr s i' = 0" by (rule npr_pop)
    have "j2lenget j2len i = 0"
    proof (cases "j2len i'")
      case None
      then show ?thesis using Suc by (simp add: j2lenget_def)
    next
      case (Some v)
      then have "v \<le> npr s i'" using inv Suc by (auto simp: row_inv_def b)
      then show ?thesis using Some Suc z by (simp add: j2lenget_def)
    qed
    then show ?thesis using np Suc z by simp
  qed
qed


lemma row_inv_Suc:
  "row_inv s (Suc i) (new, bi, bj, bs) =
     (bi = bj
      \<and> (\<forall>j v. new j = Some v \<longrightarrow> v \<le> npr s i \<and> v \<le> npr s j)
      \<and> (nonpop s (s ! i) \<longrightarrow> new i = Some (npr s i))
      \<and> (\<forall>i' < Suc i. npr s i' \<le> bs))"
  by (simp add: row_inv_def)

lemma scan_row_diag:
  assumes inv: "row_inv s i (j2len, best0)" and i: "i < length s"
  shows "sorted_wrt (<) js \<Longrightarrow>
     \<forall>j \<in> set js. s ! j = s ! i \<and> j < length s \<and> nonpop s (s ! i) \<Longrightarrow>
     bi = bj \<Longrightarrow>
     \<forall>j v. new j = Some v \<longrightarrow> v \<le> npr s i \<and> v \<le> npr s j \<Longrightarrow>
     i \<notin> set js \<longrightarrow> npr s i \<le> bs \<and> (nonpop s (s ! i) \<longrightarrow> new i = Some (npr s i)) \<Longrightarrow>
     \<forall>i' < i. npr s i' \<le> bs \<Longrightarrow>
     row_inv s (Suc i) (scan_row i 0 (length s) j2len js (new, bi, bj, bs))"
proof (induction js arbitrary: new bi bj bs)
  case Nil
  then show ?case by (auto simp: row_inv_Suc less_Suc_eq)
next
  case (Cons j js)
  let ?k = "j2lenget j2len j + 1"
  let ?new = "new(j \<mapsto> ?k)"
  from Cons.prems(2) have eq: "s ! j = s ! i" and jn: "j < length s" and np: "nonpop s (s ! i)"
    by auto
  have kb: "?k \<le> npr s i" "?k \<le> npr s j"
    using k_bounds [OF inv np eq] by auto
  have other: "?k \<le> bs" if "j \<noteq> i"
  proof (cases "j < i")
    case True
    then show ?thesis using Cons.prems(6) kb(2) by (meson le_trans)
  next
    case False
    with that have "i < j" by simp
    moreover have "\<forall>x \<in> set js. j < x" using Cons.prems(1) by simp
    ultimately have "i \<notin> set (j # js)" by auto
    then have "npr s i \<le> bs" using Cons.prems(5) by blast
    then show ?thesis using kb(1) by simp
  qed
  have step: "scan_row i 0 (length s) j2len (j # js) (new, bi, bj, bs) =
      scan_row i 0 (length s) j2len js
        (?new, if ?k > bs then (i + 1 - ?k, j + 1 - ?k, ?k) else (bi, bj, bs))"
    using scan_row_step [of j 0 "length s" i j2len js new "(bi, bj, bs)"] jn by simp
  have sorted: "sorted_wrt (<) js" using Cons.prems(1) by simp
  have mem: "\<forall>j \<in> set js. s ! j = s ! i \<and> j < length s \<and> nonpop s (s ! i)"
    using Cons.prems(2) by simp
  have new: "\<forall>j' v. ?new j' = Some v \<longrightarrow> v \<le> npr s i \<and> v \<le> npr s j'"
    using Cons.prems(4) kb by auto
  show ?case
  proof (cases "?k > bs")
    case True
    then have ji: "j = i" using other by fastforce
    have a: "i + 1 - ?k = j + 1 - ?k" using ji by simp
    have b: "i \<notin> set js \<longrightarrow> npr s i \<le> ?k \<and> (nonpop s (s ! i) \<longrightarrow> ?new i = Some (npr s i))"
      using k_diag [OF inv np] ji by simp
    have c: "\<forall>i' < i. npr s i' \<le> ?k" using Cons.prems(6) True by fastforce
    have sel: "(if ?k > bs then (i + 1 - ?k, j + 1 - ?k, ?k) else (bi, bj, bs)) = (i + 1 - ?k, j + 1 - ?k, ?k)"
      using True by (rule if_P)
    show ?thesis
      unfolding step sel by (rule Cons.IH [OF sorted mem a new b c])
  next
    case False
    have b: "i \<notin> set js \<longrightarrow> npr s i \<le> bs \<and> (nonpop s (s ! i) \<longrightarrow> ?new i = Some (npr s i))"
    proof (cases "j = i")
      case True
      then show ?thesis using k_diag [OF inv np] False by auto
    next
      case ne: False
      then show ?thesis using Cons.prems(5) by auto
    qed
    have sel: "(if ?k > bs then (i + 1 - ?k, j + 1 - ?k, ?k) else (bi, bj, bs)) = (bi, bj, bs)"
      using False by (rule if_not_P)
    show ?thesis
      unfolding step sel by (rule Cons.IH [OF sorted mem Cons.prems(3) new b Cons.prems(6)])
  qed
qed

lemma scan_rows_diag:
  assumes "h \<le> length s"
  shows "row_inv s h (fold (\<lambda>i (j2len, best). scan_row i 0 (length s) j2len (b2j s (s ! i)) (Map.empty, best))
            [0..<h] (Map.empty, (0, 0, 0)))"
  using assms
proof (induction h)
  case 0
  show ?case by (simp add: row_inv_def)
next
  case (Suc h)
  let ?st = "fold (\<lambda>i (j2len, best). scan_row i 0 (length s) j2len (b2j s (s ! i)) (Map.empty, best))
            [0..<h] (Map.empty, (0, 0, 0))"
  obtain j2len bi bj bs where st: "?st = (j2len, bi, bj, bs)" by (cases ?st) auto
  from Suc have h: "h < length s" and inv: "row_inv s h (j2len, bi, bj, bs)" by (auto simp: st)
  have diag: "bi = bj" and best: "\<forall>i' < h. npr s i' \<le> bs"
    using inv by (auto simp: row_inv_def)
  have mem: "\<forall>j \<in> set (b2j s (s ! h)). s ! j = s ! h \<and> j < length s \<and> nonpop s (s ! h)"
    using b2j_mem by blast
  have self: "h \<notin> set (b2j s (s ! h)) \<longrightarrow>
      npr s h \<le> bs \<and> (nonpop s (s ! h) \<longrightarrow> Map.empty h = Some (npr s h))"
  proof (intro impI)
    assume "h \<notin> set (b2j s (s ! h))"
    then have "\<not> nonpop s (s ! h)" using b2j_self [OF h] by blast
    then show "npr s h \<le> bs \<and> (nonpop s (s ! h) \<longrightarrow> Map.empty h = Some (npr s h))"
      using npr_pop [of s h] by simp
  qed
  have "row_inv s (Suc h) (scan_row h 0 (length s) j2len (b2j s (s ! h)) (Map.empty, bi, bj, bs))"
    by (rule scan_row_diag [OF inv h b2j_sorted mem diag _ self best]) simp
  then show ?case by (simp add: st)
qed

lemma scan_rows_equal:
  "\<exists>d k. snd (scan_rows s s 0 (length s) 0 (length s)) = (d, d, k)
       \<and> ((k = 0 \<and> d = 0) \<or> d + k \<le> length s)"
proof -
  let ?st = "scan_rows s s 0 (length s) 0 (length s)"
  obtain j2len bi bj bs where st: "?st = (j2len, bi, bj, bs)" by (cases ?st) auto
  have "row_inv s (length s) ?st"
    unfolding scan_rows_def by (rule scan_rows_diag) simp
  then have "bi = bj" by (simp add: st row_inv_def)
  moreover have "best_ok 0 (length s) (bi, bj, bs)"
    using scan_rows_bounds [of 0 "length s" s s 0 "length s"] by (simp add: st)
  ultimately show ?thesis by (auto simp: st best_ok_def)
qed


lemma extend_left_equal:
  "\<forall>c. ok c \<Longrightarrow> extend_left ok s s 0 0 (d, d, k) = (0, 0, k + d)"
proof (induction d arbitrary: k)
  case 0
  show ?case by (subst extend_left.simps) simp
next
  case (Suc d)
  have "extend_left ok s s 0 0 (Suc d, Suc d, k) = extend_left ok s s 0 0 (d, d, k + 1)"
    using Suc.prems by (subst extend_left.simps) simp
  also have "\<dots> = (0, 0, k + 1 + d)" by (rule Suc.IH [OF Suc.prems])
  finally show ?case by simp
qed

lemma extend_right_equal:
  "\<forall>c. ok c \<Longrightarrow> k \<le> n \<Longrightarrow> extend_right ok s s n n (0, 0, k) = (0, 0, n)"
proof (induction "n - k" arbitrary: k)
  case 0
  then show ?case by (subst extend_right.simps) simp
next
  case (Suc m)
  then have "m = n - (k + 1)" "k + 1 \<le> n" "k < n" by auto
  have "extend_right ok s s n n (0, 0, k) = extend_right ok s s n n (0, 0, k + 1)"
    using \<open>k < n\<close> Suc.prems(1) by (subst extend_right.simps) simp
  also have "\<dots> = (0, 0, n)"
    by (rule Suc.hyps(1) [OF \<open>m = n - (k + 1)\<close> Suc.prems(1) \<open>k + 1 \<le> n\<close>])
  finally show ?case .
qed

lemma extend_left_never: "\<forall>c. \<not> ok c \<Longrightarrow> extend_left ok a b alo blo best = best"
proof (cases best)
  case (fields besti bestj bestsize)
  assume "\<forall>c. \<not> ok c"
  then show ?thesis unfolding fields by (subst extend_left.simps) simp
qed

lemma extend_right_never: "\<forall>c. \<not> ok c \<Longrightarrow> extend_right ok a b ahi bhi best = best"
proof (cases best)
  case (fields besti bestj bestsize)
  assume "\<forall>c. \<not> ok c"
  then show ?thesis unfolding fields by (subst extend_right.simps) simp
qed

lemma find_longest_match_equal:
  "find_longest_match s s 0 (length s) 0 (length s) = (0, 0, length s)"
proof -
  obtain d k where st: "snd (scan_rows s s 0 (length s) 0 (length s)) = (d, d, k)"
    and le: "(k = 0 \<and> d = 0) \<or> d + k \<le> length s"
    using scan_rows_equal [of s] by blast
  from le have le': "k + d \<le> length s" by auto
  have nj: "\<forall>c. \<not> isbjunk c" by (simp add: isbjunk_def)
  have "extend_left (\<lambda>c. \<not> isbjunk c) s s 0 0 (d, d, k) = (0, 0, k + d)"
    using nj by (intro extend_left_equal) simp
  moreover have "extend_right (\<lambda>c. \<not> isbjunk c) s s (length s) (length s) (0, 0, k + d) = (0, 0, length s)"
    using nj le' by (intro extend_right_equal) simp_all
  ultimately show ?thesis
    unfolding find_longest_match_def Let_def st
    by (simp only: extend_left_never [OF nj] extend_right_never [OF nj])
qed

lemma get_matching_blocks_equal:
  assumes "s \<noteq> []"
  shows "get_matching_blocks s s = [(0, 0, length s), (length s, length s, 0)]"
proof -
  have "match_queue s s [(0, length s, 0, length s)] [] = [(0, 0, length s)]"
    using assms by (simp add: find_longest_match_equal)
  then show ?thesis using assms by (simp add: get_matching_blocks_def Let_def)
qed

lemma ratio_equal: "ratio s s = 1"
proof (cases "s = []")
  case True
  then show ?thesis by (simp add: ratio_def Let_def)
next
  case False
  then show ?thesis by (simp add: ratio_def Let_def get_matching_blocks_equal)
qed

text \<open>
  Claim C4. For every string \<open>s\<close>, and so for every non-empty one, the text similarity
  scorer returns \<open>get_similarity s s = 1\<close>.
\<close>

theorem get_similarity_equal: "get_similarity s s = 1"
  by (simp add: get_similarity_def Let_def ratio_equal)

section \<open>Threshold validation of the candidate filter\<close>

lemma filter_step_trace:
  "fst (fold (filter_step target_title t) product_info (trace, acc)) =
     trace @ map (\<lambda>product. GetSimilarity (d_title product)) product_info"
proof (induction product_info arbitrary: trace acc)
  case Nil
  show ?case by simp
next
  case (Cons product rest)
  obtain trace' acc' where st: "filter_step target_title t product (trace, acc) = (trace', acc')"
    by (cases "filter_step target_title t product (trace, acc)") auto
  then have "trace' = trace @ [GetSimilarity (d_title product)]"
    by (auto simp: filter_step_def Let_def split: if_splits)
  then show ?case using Cons.IH [of trace' acc'] by (simp add: st)
qed

lemma filter_accepts:
  assumes "0 \<le> t" "t \<le> 1"
  shows "\<exists>filtered. filter_products_by_similarity product_info target_title t =
     (map (\<lambda>product. GetSimilarity (d_title product)) product_info, Inr filtered)"
proof -
  obtain trace acc where st: "fold (filter_step target_title t) product_info ([], []) = (trace, acc)"
    by (cases "fold (filter_step target_title t) product_info ([], [])") auto
  have "trace = map (\<lambda>product. GetSimilarity (d_title product)) product_info"
    using filter_step_trace [of target_title t product_info "[]" "[]"] by (simp add: st)
  then show ?thesis using assms by (simp add: filter_products_by_similarity_def st)
qed

lemma filter_rejects:
  assumes "\<not> (0 \<le> t \<and> t \<le> 1)"
  shows "filter_products_by_similarity product_info target_title t = ([], Inl InvalidSimilarityThreshold)"
  using assms by (simp add: filter_products_by_similarity_def)

text \<open>
  Claim C6. \<open>filter_products_by_similarity\<close> raises the invalid-threshold error if and
  only if the threshold is outside the interval from 0 to 1; it raises no other error, and
  when it raises no similarity has been computed (the trace is empty); the thresholds 0
  and 1 are accepted, and then every product is examined.
\<close>

theorem filter_threshold_validation:
  "(snd (filter_products_by_similarity product_info target_title t) = Inl InvalidSimilarityThreshold
      \<longleftrightarrow> \<not> (0 \<le> t \<and> t \<le> 1))
   \<and> (\<forall>e. snd (filter_products_by_similarity product_info target_title t) = Inl e \<longrightarrow>
          e = InvalidSimilarityThreshold
          \<and> fst (filter_products_by_similarity product_info target_title t) = [])
   \<and> (\<exists>filtered. filter_products_by_similarity product_info target_title 0 =
          (map (\<lambda>product. GetSimilarity (d_title product)) product_info, Inr filtered))
   \<and> (\<exists>filtered. filter_products_by_similarity product_info target_title 1 =
          (map (\<lambda>product. GetSimilarity (d_title product)) product_info, Inr filtered))"
proof (cases "0 \<le> t \<and> t \<le> 1")
  case True
  then obtain filtered where "filter_products_by_similarity product_info target_title t =
     (map (\<lambda>product. GetSimilarity (d_title product)) product_info, Inr filtered)"
    using filter_accepts [of t product_info target_title] by blast
  then show ?thesis
    using True filter_accepts [of 0 product_info target_title]
      filter_accepts [of 1 product_info target_title] by auto
next
  case False
  then show ?thesis
    using filter_rejects [OF False, of product_info target_title]
      filter_accepts [of 0 product_info target_title]
      filter_accepts [of 1 product_info target_title] by auto
qed

theorem filter_threshold_validation_witness:
  "filter_products_by_similarity
     [\<lparr>d_price = 10, d_shipping = 2, d_country = ''US'', d_condition = ''New'', d_title = ''test item''\<rparr>]
     ''test item'' (3 / 2) = ([], Inl InvalidSimilarityThreshold)
   \<and> (\<exists>filtered. filter_products_by_similarity
     [\<lparr>d_price = 10, d_shipping = 2, d_country = ''US'', d_condition = ''New'', d_title = ''test item''\<rparr>]
     ''test item'' 1 = ([GetSimilarity ''test item''], Inr filtered))"
  using filter_threshold_validation
    [of "[\<lparr>d_price = 10, d_shipping = 2, d_country = ''US'', d_condition = ''New'', d_title = ''test item''\<rparr>]"
        "''test item''" "3 / 2"]
  by (simp add: filter_products_by_similarity_def)

section \<open>The selector returns the cheapest of the most similar candidates\<close>

lemma best_scan_Some:
  "\<exists>mx' mn'. best_scan xs (Some (mx, mn)) = Some (mx', mn')
     \<and> (mx' = mx \<or> mx' \<in> snd ` set xs)
     \<and> d_similarity mx \<le> d_similarity mx'
     \<and> (\<forall>d \<in> snd ` set xs. d_similarity d \<le> d_similarity mx')"
proof (induction xs arbitrary: mx mn)
  case Nil
  show ?case by simp
next
  case (Cons x xs)
  obtain name item where x: "x = (name, item)" by (cases x) auto
  let ?mx = "if d_similarity item > d_similarity mx then item else mx"
  let ?mn = "if d_price item < d_price mn then item else mn"
  from Cons.IH [of ?mx ?mn] obtain mx' mn' where
    r: "best_scan xs (Some (?mx, ?mn)) = Some (mx', mn')"
    and m: "mx' = ?mx \<or> mx' \<in> snd ` set xs"
    and g: "d_similarity ?mx \<le> d_similarity mx'"
    and a: "\<forall>d \<in> snd ` set xs. d_similarity d \<le> d_similarity mx'"
    by blast
  have "best_scan (x # xs) (Some (mx, mn)) = Some (mx', mn')"
    using r by (simp add: x)
  moreover have "mx' = mx \<or> mx' \<in> snd ` set (x # xs)"
    using m by (auto simp: x split: if_splits)
  moreover have "d_similarity mx \<le> d_similarity mx'"
    using g by (auto split: if_splits)
  moreover have "\<forall>d \<in> snd ` set (x # xs). d_similarity d \<le> d_similarity mx'"
    using a g by (auto simp: x split: if_splits)
  ultimately show ?case by blast
qed

lemma best_scan_None:
  assumes "xs \<noteq> []"
  shows "\<exists>mx mn. best_scan xs None = Some (mx, mn)
     \<and> mx \<in> snd ` set xs
     \<and> (\<forall>d \<in> snd ` set xs. d_similarity d \<le> d_similarity mx)"
proof -
  obtain name item rest where xs: "xs = (name, item) # rest"
    using assms by (cases xs) auto
  from best_scan_Some [of rest item item] obtain mx mn where
    "best_scan rest (Some (item, item)) = Some (mx, mn)"
    "mx = item \<or> mx \<in> snd ` set rest"
    "d_similarity item \<le> d_similarity mx"
    "\<forall>d \<in> snd ` set rest. d_similarity d \<le> d_similarity mx"
    by blast
  then show ?thesis by (auto simp: xs)
qed

lemma min_by_least:
  "min_by key best xs \<in> set (best # xs)
   \<and> (\<forall>y \<in> set (best # xs). key (min_by key best xs) \<le> key y)"
proof (induction xs arbitrary: best)
  case Nil
  show ?case by simp
next
  case (Cons x xs)
  show ?case
  proof (cases "key x < key best")
    case True
    with Cons.IH [of x] show ?thesis by (auto intro: order_trans less_imp_le)
  next
    case False
    with Cons.IH [of best] show ?thesis by (auto intro: order_trans)
  qed
qed

text \<open>
  Claim C1. On the empty map \<open>lowest_price_highest_similarity\<close> fails with
  \<open>NoProductsFound\<close>; on every non-empty map it returns an entry of the map whose
  similarity is the maximum over all entries and whose price is the minimum among the
  entries with exactly that similarity.
\<close>

theorem lowest_price_highest_similarity_selects:
  "lowest_price_highest_similarity ([] :: ('p :: linorder) dict) = Inl NoProductsFound
   \<and> (candidates \<noteq> [] \<longrightarrow>
        (\<exists>name best. lowest_price_highest_similarity (candidates :: ('p :: linorder) dict) = Inr (name, best)
           \<and> (name, best) \<in> set candidates
           \<and> (\<forall>(n, d) \<in> set candidates. d_similarity d \<le> d_similarity best)
           \<and> (\<forall>(n, d) \<in> set candidates.
                 d_similarity d = d_similarity best \<longrightarrow> d_price best \<le> d_price d)))"
proof (intro conjI impI)
  show "lowest_price_highest_similarity ([] :: 'p dict) = Inl NoProductsFound"
    by (simp add: lowest_price_highest_similarity_def)
next
  assume ne: "candidates \<noteq> []"
  from best_scan_None [OF ne] obtain mx mn where
    scan: "best_scan candidates None = Some (mx, mn)"
    and mem: "mx \<in> snd ` set candidates"
    and top: "\<forall>d \<in> snd ` set candidates. d_similarity d \<le> d_similarity mx"
    by blast
  let ?tied = "filter (\<lambda>(item_name, item_details). d_similarity item_details = d_similarity mx) candidates"
  from mem have "?tied \<noteq> []" by (auto simp: filter_empty_conv)
  then obtain x rest where tied: "?tied = x # rest" by (cases ?tied) auto
  let ?r = "min_by (\<lambda>x. d_price (snd x)) x rest"
  have res: "lowest_price_highest_similarity candidates = Inr ?r"
    using ne by (simp add: lowest_price_highest_similarity_def scan tied py_min_def)
  have least: "?r \<in> set ?tied" "\<forall>y \<in> set ?tied. d_price (snd ?r) \<le> d_price (snd y)"
    using min_by_least [of "\<lambda>x. d_price (snd x)" x rest] unfolding tied by auto
  obtain name best where r: "?r = (name, best)" by (cases ?r) auto
  from least(1) have in_c: "(name, best) \<in> set candidates" and sim: "d_similarity best = d_similarity mx"
    by (auto simp: r)
  have "\<forall>(n, d) \<in> set candidates. d_similarity d \<le> d_similarity best"
    using top sim by force
  moreover have "\<forall>(n, d) \<in> set candidates.
      d_similarity d = d_similarity best \<longrightarrow> d_price best \<le> d_price d"
    using least(2) sim by (auto simp: r)
  ultimately show "\<exists>name best. lowest_price_highest_similarity candidates = Inr (name, best)
           \<and> (name, best) \<in> set candidates
           \<and> (\<forall>(n, d) \<in> set candidates. d_similarity d \<le> d_similarity best)
           \<and> (\<forall>(n, d) \<in> set candidates.
                 d_similarity d = d_similarity best \<longrightarrow> d_price best \<le> d_price d)"
    using res r in_c by auto
qed

theorem lowest_price_highest_similarity_selects_witness:
  "lowest_price_highest_similarity tied_pair =
     Inr (''second'', \<lparr>d_price = 10, d_shipping = 0, d_country = ''US'', d_condition = ''New'',
                       d_similarity = 9 / 10\<rparr>)
   \<and> (\<exists>name best. lowest_price_highest_similarity tied_pair = Inr (name, best)
           \<and> (name, best) \<in> set tied_pair
           \<and> (\<forall>(n, d) \<in> set tied_pair. d_similarity d \<le> d_similarity best)
           \<and> (\<forall>(n, d) \<in> set tied_pair.
                 d_similarity d = d_similarity best \<longrightarrow> d_price best \<le> d_price d))"
proof -
  have ne: "tied_pair \<noteq> []" by (simp add: tied_pair_def)
  have "lowest_price_highest_similarity tied_pair =
     Inr (''second'', \<lparr>d_price = 10, d_shipping = 0, d_country = ''US'', d_condition = ''New'',
                       d_similarity = 9 / 10\<rparr>)"
    by (simp add: tied_pair_def lowest_price_highest_similarity_def py_min_def)
  then show ?thesis
    using lowest_price_highest_similarity_selects [of tied_pair] ne by blast
qed

section \<open>The ramp-down loop\<close>

lemma ramp_add: "ramp (ramp rd m) k = ramp rd (m + k)"
  by (induction k) simp_all

lemma ramp_one: "rd + 1 / 20 = ramp rd (Suc 0)"
  by simp

lemma attempt_shift: "attempt thr (ramp rd m) k = attempt thr rd (m + k)"
  by (simp add: attempt_def ramp_add)

lemma ramp_step:
  "ramp_down_loop lps thr rd ce trace =
     (case lps (attempt thr rd (Suc 0)) of
        (events, Inl e) \<Rightarrow> Some (trace @ events, Inl e)
      | (events, Inr filtered) \<Rightarrow>
          if ce = Suc (Suc 0) \<or> filtered \<noteq> []
          then Some (trace @ events, Inr (filtered, ramp rd (Suc 0)))
          else ramp_down_loop lps thr (ramp rd (Suc 0)) (Suc ce) (trace @ events))"
  by (subst ramp_down_loop.simps) (simp add: attempt_def split: prod.splits sum.splits)

lemma loop_result_1:
  "loop_result lps thr rd (Suc 0) =
     (fst (lps (attempt thr rd (Suc 0))),
      case snd (lps (attempt thr rd (Suc 0))) of
        Inl e \<Rightarrow> Inl e | Inr filtered \<Rightarrow> Inr (filtered, ramp rd (Suc 0)))"
  unfolding loop_result_def by simp

lemma loop_result_2:
  "loop_result lps thr rd (Suc (Suc 0)) =
     (fst (lps (attempt thr rd (Suc 0))) @ fst (lps (attempt thr rd (Suc (Suc 0)))),
      case snd (lps (attempt thr rd (Suc (Suc 0)))) of
        Inl e \<Rightarrow> Inl e | Inr filtered \<Rightarrow> Inr (filtered, ramp rd (Suc (Suc 0))))"
  unfolding loop_result_def by simp

lemma loop_result_3:
  "loop_result lps thr rd (Suc (Suc (Suc 0))) =
     (fst (lps (attempt thr rd (Suc 0))) @ fst (lps (attempt thr rd (Suc (Suc 0))))
        @ fst (lps (attempt thr rd (Suc (Suc (Suc 0))))),
      case snd (lps (attempt thr rd (Suc (Suc (Suc 0))))) of
        Inl e \<Rightarrow> Inl e | Inr filtered \<Rightarrow> Inr (filtered, ramp rd (Suc (Suc (Suc 0)))))"
  unfolding loop_result_def by simp

lemma ramp_down_loop_unrolled:
  "\<exists>n. 1 \<le> n \<and> n \<le> 3
     \<and> ramp_down_loop lps thr rd 0 trace =
         Some (trace @ fst (loop_result lps thr rd n), snd (loop_result lps thr rd n))
     \<and> (\<forall>k. 1 \<le> k \<and> k < n \<longrightarrow> snd (lps (attempt thr rd k)) = Inr [])
     \<and> (snd (lps (attempt thr rd n)) = Inr [] \<longrightarrow> n = 3)"
proof -
  let ?a1 = "lps (attempt thr rd (Suc 0))"
  let ?a2 = "lps (attempt thr rd (Suc (Suc 0)))"
  let ?a3 = "lps (attempt thr rd (Suc (Suc (Suc 0))))"
  have s0: "ramp_down_loop lps thr rd 0 trace =
      (if snd ?a1 = Inr [] then ramp_down_loop lps thr (ramp rd (Suc 0)) (Suc 0) (trace @ fst ?a1)
       else Some (trace @ fst (loop_result lps thr rd (Suc 0)), snd (loop_result lps thr rd (Suc 0))))"
    by (subst ramp_step) (simp add: loop_result_1 del: ramp.simps split: prod.splits sum.splits)
  have s1: "ramp_down_loop lps thr (ramp rd (Suc 0)) (Suc 0) (trace @ fst ?a1) =
      (if snd ?a2 = Inr []
       then ramp_down_loop lps thr (ramp rd (Suc (Suc 0))) (Suc (Suc 0)) (trace @ fst ?a1 @ fst ?a2)
       else Some (trace @ fst (loop_result lps thr rd (Suc (Suc 0))),
                  snd (loop_result lps thr rd (Suc (Suc 0)))))"
    by (subst ramp_step)
      (simp add: loop_result_2 attempt_shift ramp_add del: ramp.simps split: prod.splits sum.splits)
  have s2: "ramp_down_loop lps thr (ramp rd (Suc (Suc 0))) (Suc (Suc 0)) (trace @ fst ?a1 @ fst ?a2) =
       Some (trace @ fst (loop_result lps thr rd (Suc (Suc (Suc 0)))),
             snd (loop_result lps thr rd (Suc (Suc (Suc 0)))))"
    by (subst ramp_step)
      (simp add: loop_result_3 attempt_shift ramp_add del: ramp.simps split: prod.splits sum.splits)
  show ?thesis
  proof (cases "snd ?a1 = Inr []")
    case False
    then show ?thesis using s0 by (intro exI [of _ "Suc 0"]) simp
  next
    case r1: True
    show ?thesis
    proof (cases "snd ?a2 = Inr []")
      case False
      have "\<forall>k. 1 \<le> k \<and> k < Suc (Suc 0) \<longrightarrow> snd (lps (attempt thr rd k)) = Inr []"
        using r1 by (auto simp: less_Suc_eq)
      then show ?thesis using s0 s1 r1 False by (intro exI [of _ "Suc (Suc 0)"]) simp
    next
      case r2: True
      have "\<forall>k. 1 \<le> k \<and> k < Suc (Suc (Suc 0)) \<longrightarrow> snd (lps (attempt thr rd k)) = Inr []"
        using r1 r2 by (auto simp: less_Suc_eq)
      then show ?thesis using s0 s1 s2 r1 r2 by (intro exI [of _ "Suc (Suc (Suc 0))"]) simp
    qed
  qed
qed

lemma thresholds_append: "thresholds (xs @ ys) = thresholds xs @ thresholds ys"
  by (induction xs rule: thresholds.induct) simp_all

lemma fetched_append: "fetched (xs @ ys) = fetched xs @ fetched ys"
  by (induction xs rule: fetched.induct) simp_all

lemma thresholds_similarity: "thresholds (map (\<lambda>product. GetSimilarity (f product)) xs) = []"
  by (induction xs) simp_all

lemma fetched_similarity: "fetched (map (\<lambda>product. GetSimilarity (f product)) xs) = []"
  by (induction xs) simp_all

lemma lps_valid:
  assumes "0 \<le> t" "t \<le> 1"
  shows "\<exists>filtered. listing_product_similarity self_soup title t =
     (FilterProducts t # map (\<lambda>product. GetSimilarity (d_title product)) (get_product_info self_soup),
      Inr filtered)"
  using filter_accepts [OF assms, of "get_product_info self_soup" "lower title"]
  by (auto simp: listing_product_similarity_def)

lemma lps_invalid:
  assumes "\<not> (0 \<le> t \<and> t \<le> 1)"
  shows "listing_product_similarity self_soup title t =
     ([FilterProducts t], Inl InvalidSimilarityThreshold)"
  using filter_rejects [OF assms, of "get_product_info self_soup" "lower title"]
  by (simp add: listing_product_similarity_def)

lemma lps_thresholds: "thresholds (fst (listing_product_similarity self_soup title t)) = [t]"
proof (cases "0 \<le> t \<and> t \<le> 1")
  case True
  then obtain filtered where "listing_product_similarity self_soup title t =
     (FilterProducts t # map (\<lambda>product. GetSimilarity (d_title product)) (get_product_info self_soup),
      Inr filtered)"
    using lps_valid [of t self_soup title] by blast
  then show ?thesis by (simp add: thresholds_similarity)
next
  case False
  then show ?thesis by (simp add: lps_invalid)
qed

lemma lps_fetched: "fetched (fst (listing_product_similarity self_soup title t)) = []"
proof (cases "0 \<le> t \<and> t \<le> 1")
  case True
  then obtain filtered where "listing_product_similarity self_soup title t =
     (FilterProducts t # map (\<lambda>product. GetSimilarity (d_title product)) (get_product_info self_soup),
      Inr filtered)"
    using lps_valid [of t self_soup title] by blast
  then show ?thesis by (simp add: fetched_similarity)
next
  case False
  then show ?thesis by (simp add: lps_invalid)
qed

lemma lps_error:
  assumes "snd (listing_product_similarity self_soup title t) = Inl e"
  shows "e = InvalidSimilarityThreshold \<and> \<not> (0 \<le> t \<and> t \<le> 1)"
proof (cases "0 \<le> t \<and> t \<le> 1")
  case True
  then show ?thesis using lps_valid [of t self_soup title] assms by auto
next
  case False
  then show ?thesis using assms by (simp add: lps_invalid)
qed

lemma loop_thresholds:
  "thresholds (fst (loop_result (listing_product_similarity self_soup title) thr rd n)) =
     map (attempt thr rd) [1..<Suc n]"
  unfolding loop_result_def fst_conv
  by (induction n) (simp_all add: thresholds_append lps_thresholds)

lemma loop_fetched:
  "fetched (fst (loop_result (listing_product_similarity self_soup title) thr rd n)) = []"
  unfolding loop_result_def fst_conv
  by (induction n) (simp_all add: fetched_append lps_fetched)

lemma ramp_mono: "rd \<le> ramp rd k"
  by (induction k) simp_all

lemma attempt_nonneg: "0 \<le> attempt thr rd k"
  by (simp add: attempt_def)

lemma attempt_le: "0 \<le> rd \<Longrightarrow> 0 \<le> thr \<Longrightarrow> attempt thr rd k \<le> thr"
  using ramp_mono [of rd k] by (simp add: attempt_def)

text \<open>The page step when the fetch succeeds.\<close>

lemma search_page_cases:
  assumes "create_url title page_number = Inr self_soup"
  obtains (direct) filtered where
      "filtered \<noteq> []"
      "snd (listing_product_similarity self_soup title (35 / 100)) = Inr filtered"
      "search_page create_url title page_number rd trace =
         Some (trace @ CreateUrl page_number # fst (listing_product_similarity self_soup title (35 / 100)),
               Inr (filtered, rd))"
  | (ramped) n where
      "1 \<le> n" "n \<le> 3"
      "snd (listing_product_similarity self_soup title (35 / 100)) = Inr []"
      "search_page create_url title page_number rd trace =
         Some (trace @ CreateUrl page_number # fst (listing_product_similarity self_soup title (35 / 100))
                 @ fst (loop_result (listing_product_similarity self_soup title) (35 / 100) rd n),
               snd (loop_result (listing_product_similarity self_soup title) (35 / 100) rd n))"
      "\<forall>k. 1 \<le> k \<and> k < n \<longrightarrow>
           snd (listing_product_similarity self_soup title (attempt (35 / 100) rd k)) = Inr []"
      "snd (listing_product_similarity self_soup title (attempt (35 / 100) rd n)) = Inr [] \<longrightarrow> n = 3"
proof -
  let ?lps = "listing_product_similarity self_soup title"
  obtain filtered where base: "?lps (7 / 20) =
     (FilterProducts (7 / 20) # map (\<lambda>product. GetSimilarity (d_title product)) (get_product_info self_soup),
      Inr filtered)"
    using lps_valid [of "7 / 20" self_soup title] by auto
  show ?thesis
  proof (cases "filtered = []")
    case False
    have h1: "search_page create_url title page_number rd trace =
        Some (trace @ CreateUrl page_number # fst (?lps (35 / 100)), Inr (filtered, rd))"
      using False by (simp add: search_page_def Let_def assms base)
    have h2: "snd (?lps (35 / 100)) = Inr filtered" by (simp add: base)
    show ?thesis by (rule direct [OF False h2 h1])
  next
    case True
    have sp: "search_page create_url title page_number rd trace =
        ramp_down_loop ?lps (35 / 100) rd 0 (trace @ CreateUrl page_number # fst (?lps (35 / 100)))"
      using True by (simp add: search_page_def Let_def assms base)
    have b: "snd (?lps (35 / 100)) = Inr []" using True by (simp add: base)
    from ramp_down_loop_unrolled [of ?lps "35 / 100" rd
        "trace @ CreateUrl page_number # fst (?lps (35 / 100))"]
    obtain n where n: "1 \<le> n" "n \<le> 3"
      and r: "ramp_down_loop ?lps (35 / 100) rd 0 (trace @ CreateUrl page_number # fst (?lps (35 / 100))) =
         Some ((trace @ CreateUrl page_number # fst (?lps (35 / 100))) @ fst (loop_result ?lps (35 / 100) rd n),
               snd (loop_result ?lps (35 / 100) rd n))"
      and e: "\<forall>k. 1 \<le> k \<and> k < n \<longrightarrow> snd (?lps (attempt (35 / 100) rd k)) = Inr []"
      and l: "snd (?lps (attempt (35 / 100) rd n)) = Inr [] \<longrightarrow> n = 3"
      by blast
    have h: "search_page create_url title page_number rd trace =
         Some (trace @ CreateUrl page_number # fst (?lps (35 / 100)) @ fst (loop_result ?lps (35 / 100) rd n),
               snd (loop_result ?lps (35 / 100) rd n))"
      unfolding sp r by simp
    show ?thesis by (rule ramped [OF n b h e l])
  qed
qed

lemma info_empty: "get_product_info empty_page = []"
  by (simp add: get_product_info_def empty_page_def remove_outliers_def)

lemma lps_empty:
  "0 \<le> t \<Longrightarrow> t \<le> 1 \<Longrightarrow> listing_product_similarity empty_page title t = ([FilterProducts t], Inr [])"
  by (simp add: listing_product_similarity_def info_empty filter_products_by_similarity_def)

section \<open>Thresholds passed by the search\<close>

lemma loop_result_ramp:
  "snd (loop_result lps thr rd n) = Inr (filtered, rd') \<Longrightarrow> rd' = ramp rd n"
  by (auto simp: loop_result_def split: sum.splits)

lemma search_page_summary:
  "\<exists>events r. search_page create_url title page_number rd trace = Some (trace @ events, r)
     \<and> fetched events = [page_number]
     \<and> (\<forall>t \<in> set (thresholds events). 0 \<le> t \<and> (0 \<le> rd \<longrightarrow> t \<le> 35 / 100))
     \<and> (\<forall>filtered rd'. r = Inr (filtered, rd') \<longrightarrow> rd \<le> rd')"
proof (cases "create_url title page_number")
  case (Inl e)
  then have "search_page create_url title page_number rd trace =
      Some (trace @ [CreateUrl page_number], Inl e)"
    by (simp add: search_page_def)
  then show ?thesis by (intro exI [of _ "[CreateUrl page_number]"] exI [of _ "Inl e"]) simp
next
  case (Inr self_soup)
  let ?lps = "listing_product_similarity self_soup title"
  let ?base = "CreateUrl page_number # fst (?lps (35 / 100))"
  have tb: "thresholds ?base = [35 / 100]" "fetched ?base = [page_number]"
    by (simp_all add: lps_thresholds lps_fetched)
  from Inr show ?thesis
  proof (cases rule: search_page_cases [where rd = rd and trace = trace])
    case (direct filtered)
    have "\<forall>t \<in> set (thresholds ?base). 0 \<le> t \<and> (0 \<le> rd \<longrightarrow> t \<le> 35 / 100)"
      unfolding tb by simp
    then show ?thesis
      using direct(3) tb(2)
      by (intro exI [of _ ?base] exI [of _ "Inr (filtered, rd)"]) simp
  next
    case (ramped n)
    let ?ev = "?base @ fst (loop_result ?lps (35 / 100) rd n)"
    let ?r = "snd (loop_result ?lps (35 / 100) rd n)"
    have sp: "search_page create_url title page_number rd trace = Some (trace @ ?ev, ?r)"
      using ramped(4) by simp
    have f: "fetched ?ev = [page_number]"
      unfolding fetched_append tb loop_fetched by simp
    have "thresholds ?ev = 35 / 100 # map (attempt (35 / 100) rd) [1..<Suc n]"
      unfolding thresholds_append tb loop_thresholds by simp
    then have t: "\<forall>t \<in> set (thresholds ?ev). 0 \<le> t \<and> (0 \<le> rd \<longrightarrow> t \<le> 35 / 100)"
      using attempt_nonneg [of "35 / 100" rd] attempt_le [of rd "35 / 100"] by auto
    have m: "\<forall>filtered rd'. ?r = Inr (filtered, rd') \<longrightarrow> rd \<le> rd'"
      using loop_result_ramp [of ?lps "35 / 100" rd n] ramp_mono [of rd n] by auto
    show ?thesis
      by (rule exI [of _ ?ev], rule exI [of _ ?r]) (use sp f t m in blast)
  qed
qed

lemma search_pages_summary:
  "\<exists>events r. search_pages create_url title pages rd acc trace = Some (trace @ events, r)
     \<and> (\<forall>t \<in> set (thresholds events). 0 \<le> t \<and> (0 \<le> rd \<longrightarrow> t \<le> 35 / 100))"
proof (induction pages arbitrary: rd acc trace)
  case Nil
  show ?case by (intro exI [of _ "[]"] exI [of _ "Inr acc"]) simp
next
  case (Cons page_number pages)
  obtain descriptions prices shipping countries conditions similarities where
    acc: "acc = (descriptions, prices, shipping, countries, conditions, similarities)"
    by (cases acc) auto
  from search_page_summary [of create_url title page_number rd trace]
  obtain ev1 r1 where sp: "search_page create_url title page_number rd trace = Some (trace @ ev1, r1)"
    and t1: "\<forall>t \<in> set (thresholds ev1). 0 \<le> t \<and> (0 \<le> rd \<longrightarrow> t \<le> 35 / 100)"
    and m1: "\<forall>filtered rd'. r1 = Inr (filtered, rd') \<longrightarrow> rd \<le> rd'"
    by blast
  show ?case
  proof (cases r1)
    case (Inl e)
    then have "search_pages create_url title (page_number # pages) rd acc trace =
        Some (trace @ ev1, Inl e)"
      by (simp add: acc sp)
    then show ?thesis using t1 by blast
  next
    case (Inr pair)
    obtain filtered rd' where pair: "pair = (filtered, rd')" by (cases pair) auto
    have le: "rd \<le> rd'" using m1 Inr pair by simp
    let ?acc = "(descriptions @ map fst filtered,
             prices @ map (\<lambda>product. format_money (d_price product)) (map snd filtered),
             shipping @ map (\<lambda>product. format_money (d_shipping product)) (map snd filtered),
             countries @ map d_country (map snd filtered),
             conditions @ map d_condition (map snd filtered),
             similarities @ map d_similarity (map snd filtered))"
    from Cons.IH [of rd' ?acc "trace @ ev1"]
    obtain ev2 r2 where
      rec: "search_pages create_url title pages rd' ?acc (trace @ ev1) = Some ((trace @ ev1) @ ev2, r2)"
      and t2: "\<forall>t \<in> set (thresholds ev2). 0 \<le> t \<and> (0 \<le> rd' \<longrightarrow> t \<le> 35 / 100)"
      by blast
    have "search_pages create_url title (page_number # pages) rd acc trace =
        Some (trace @ (ev1 @ ev2), r2)"
      using rec by (simp add: acc sp Inr pair)
    moreover have "\<forall>t \<in> set (thresholds (ev1 @ ev2)). 0 \<le> t \<and> (0 \<le> rd \<longrightarrow> t \<le> 35 / 100)"
      using t1 t2 le by (auto simp: thresholds_append)
    ultimately show ?thesis by blast
  qed
qed

lemma find_viable_product_summary:
  "\<exists>trace r. find_viable_product create_url title rd = Some (trace, r)
     \<and> (\<forall>t \<in> set (thresholds trace). 0 \<le> t \<and> (0 \<le> rd \<longrightarrow> t \<le> 35 / 100))"
proof -
  from search_pages_summary [of create_url title "[0..<5]" rd "([], [], [], [], [], [])" "[]"]
  obtain events r where
    sp: "search_pages create_url title [0..<5] rd ([], [], [], [], [], []) [] = Some (events, r)"
    and t: "\<forall>t \<in> set (thresholds events). 0 \<le> t \<and> (0 \<le> rd \<longrightarrow> t \<le> 35 / 100)"
    by auto
  have "\<exists>r'. find_viable_product create_url title rd = Some (events, r')"
    unfolding find_viable_product_def sp by (auto split: sum.splits prod.splits)
  then show ?thesis using t by blast
qed

text \<open>
  Claim C2, as amended. On a page that was fetched and whose filtering at the base
  threshold 0.35 is empty, the ramp-down loop makes between one and three re-filter
  attempts and then moves on: the \<open>k\<close>-th attempt adds 0.05 to the accumulator and
  filters at \<open>max 0 (0.35 - accumulator)\<close>; every attempt before the last is empty, and
  the last one is either non-empty or the third.
\<close>

theorem search_page_ramp_down_attempts:
  assumes "create_url title page_number = Inr self_soup"
    and "snd (listing_product_similarity self_soup title (35 / 100)) = Inr []"
  shows "\<exists>n events r. 1 \<le> n \<and> n \<le> 3
     \<and> search_page create_url title page_number ramp_down trace = Some (trace @ events, r)
     \<and> fetched events = [page_number]
     \<and> thresholds events = 35 / 100 # map (\<lambda>k. max 0 (35 / 100 - ramp ramp_down k)) [1..<Suc n]
     \<and> (\<forall>k. 1 \<le> k \<and> k < n \<longrightarrow>
           snd (listing_product_similarity self_soup title (max 0 (35 / 100 - ramp ramp_down k))) = Inr [])
     \<and> (snd (listing_product_similarity self_soup title (max 0 (35 / 100 - ramp ramp_down n))) = Inr []
           \<longrightarrow> n = 3)"
  using assms(1)
proof (cases rule: search_page_cases [where rd = ramp_down and trace = trace])
  case (direct filtered)
  then show ?thesis using assms(2) by simp
next
  case (ramped n)
  let ?lps = "listing_product_similarity self_soup title"
  let ?base = "CreateUrl page_number # fst (?lps (35 / 100))"
  let ?ev = "?base @ fst (loop_result ?lps (35 / 100) ramp_down n)"
  have tb: "thresholds ?base = [35 / 100]" "fetched ?base = [page_number]"
    by (simp_all add: lps_thresholds lps_fetched)
  have att: "attempt (35 / 100) ramp_down = (\<lambda>k. max 0 (35 / 100 - ramp ramp_down k))"
    by (rule ext) (simp add: attempt_def)
  have sp: "search_page create_url title page_number ramp_down trace =
      Some (trace @ ?ev, snd (loop_result ?lps (35 / 100) ramp_down n))"
    using ramped(4) by simp
  have f: "fetched ?ev = [page_number]"
    unfolding fetched_append tb loop_fetched by simp
  have t: "thresholds ?ev = 35 / 100 # map (\<lambda>k. max 0 (35 / 100 - ramp ramp_down k)) [1..<Suc n]"
    unfolding thresholds_append tb loop_thresholds att by simp
  show ?thesis
    apply (rule exI [of _ n], rule exI [of _ ?ev])
    apply (rule exI [of _ "snd (loop_result ?lps (35 / 100) ramp_down n)"])
    using ramped(1,2,5,6) sp f t unfolding att by blast
qed

theorem search_page_ramp_down_attempts_witness:
  "\<exists>n events r. 1 \<le> n \<and> n \<le> 3
     \<and> search_page (\<lambda>title page_number. Inr empty_page) ''x'' 0 0 [] = Some ([] @ events, r)
     \<and> fetched events = [0]
     \<and> thresholds events = 35 / 100 # map (\<lambda>k. max 0 (35 / 100 - ramp 0 k)) [1..<Suc n]
     \<and> (\<forall>k. 1 \<le> k \<and> k < n \<longrightarrow>
           snd (listing_product_similarity empty_page ''x'' (max 0 (35 / 100 - ramp 0 k))) = Inr [])
     \<and> (snd (listing_product_similarity empty_page ''x'' (max 0 (35 / 100 - ramp 0 n))) = Inr []
           \<longrightarrow> n = 3)"
proof -
  have "snd (listing_product_similarity empty_page ''x'' (35 / 100)) = Inr []"
    by (simp add: lps_empty)
  then show ?thesis
    by (intro search_page_ramp_down_attempts) simp_all
qed

text \<open>
  On a page without listings the loop makes three empty re-filter attempts, at 0.30,
  0.25 and 0.20, not two.
\<close>

theorem search_page_three_attempts_counterexample:
  "search_page (\<lambda>title page_number. Inr empty_page) ''x'' 0 0 [] =
     Some ([CreateUrl 0, FilterProducts (35 / 100), FilterProducts (30 / 100),
            FilterProducts (25 / 100), FilterProducts (20 / 100)], Inr ([], 15 / 100))"
  by code_simp

text \<open>
  Claim C9, as amended. The search always returns, and every threshold that it passes
  to the filter is at least 0. When the initial ramp-down is at least 0, no threshold
  exceeds the base value 0.35, so the range validation cannot fail on any of them.
\<close>

theorem find_viable_product_thresholds:
  "\<exists>trace r. find_viable_product create_url title ramp_down = Some (trace, r)
     \<and> (\<forall>t \<in> set (thresholds trace).
           0 \<le> t
           \<and> (0 \<le> ramp_down \<longrightarrow>
                t \<le> 35 / 100
                \<and> (\<forall>product_info target_title.
                      snd (filter_products_by_similarity product_info target_title t)
                        \<noteq> Inl InvalidSimilarityThreshold)))"
proof -
  from find_viable_product_summary [of create_url title ramp_down]
  obtain trace r where run: "find_viable_product create_url title ramp_down = Some (trace, r)"
    and t: "\<forall>t \<in> set (thresholds trace). 0 \<le> t \<and> (0 \<le> ramp_down \<longrightarrow> t \<le> 35 / 100)"
    by blast
  have "snd (filter_products_by_similarity product_info target_title t) \<noteq> Inl InvalidSimilarityThreshold"
    if "0 \<le> t" "t \<le> 35 / 100" for product_info target_title t
    using filter_accepts [of t product_info target_title] that by auto
  then show ?thesis using run t by blast
qed

theorem find_viable_product_thresholds_witness:
  "\<exists>trace r. find_viable_product (\<lambda>title page_number. Inr empty_page) ''x'' 0 = Some (trace, r)
     \<and> (\<forall>t \<in> set (thresholds trace).
           0 \<le> t \<and> t \<le> 35 / 100
           \<and> (\<forall>product_info target_title.
                 snd (filter_products_by_similarity product_info target_title t)
                   \<noteq> Inl InvalidSimilarityThreshold))"
  using find_viable_product_thresholds [of "\<lambda>title page_number. Inr empty_page" "''x''" 0]
  by simp

text \<open>
  With the initial ramp-down \<open>-1\<close> the first re-filter is made at the threshold 1.30, and
  the search fails with the invalid-threshold error.
\<close>

theorem find_viable_product_negative_ramp_counterexample:
  "find_viable_product (\<lambda>title page_number. Inr empty_page) ''x'' (- 1) =
     Some ([CreateUrl 0, FilterProducts (35 / 100), FilterProducts (130 / 100)],
           Inl InvalidSimilarityThreshold)"
  by code_simp

section \<open>A search over empty pages\<close>

lemma loop_result_empty:
  assumes "snd (lps (attempt thr rd n)) = Inr []"
  shows "snd (loop_result lps thr rd n) = Inr ([], ramp rd n)"
  using assms by (simp add: loop_result_def)

lemma search_pages_empty:
  assumes "\<forall>i < length pages.
      create_url title (pages ! i) = Inr (page (pages ! i))
      \<and> snd (listing_product_similarity (page (pages ! i)) title (35 / 100)) = Inr []
      \<and> (\<forall>k. 1 \<le> k \<and> k \<le> 3 \<longrightarrow>
            snd (listing_product_similarity (page (pages ! i)) title
                   (attempt (35 / 100) rd (3 * i + k))) = Inr [])"
  shows "\<exists>events. search_pages create_url title pages rd acc trace = Some (trace @ events, Inr acc)
     \<and> fetched events = pages \<and> length (thresholds events) = 4 * length pages"
  using assms
proof (induction pages arbitrary: rd trace)
  case Nil
  show ?case by simp
next
  case (Cons p pages)
  obtain descriptions prices shipping countries conditions similarities where
    acc: "acc = (descriptions, prices, shipping, countries, conditions, similarities)"
    by (cases acc) auto
  let ?lps = "listing_product_similarity (page p) title"
  from Cons.prems have fetch: "create_url title p = Inr (page p)"
    and base: "snd (?lps (35 / 100)) = Inr []"
    and att: "\<forall>k. 1 \<le> k \<and> k \<le> 3 \<longrightarrow> snd (?lps (attempt (35 / 100) rd k)) = Inr []"
    by force+
  from fetch obtain ev where
    sp: "search_page create_url title p rd trace = Some (trace @ ev, Inr ([], ramp rd 3))"
    and f: "fetched ev = [p]" and t: "length (thresholds ev) = 4"
  proof (cases rule: search_page_cases [where rd = rd and trace = trace])
    case (direct filtered)
    then show ?thesis using base by simp
  next
    case (ramped n)
    have "snd (?lps (attempt (35 / 100) rd n)) = Inr []" using att ramped(1,2) by blast
    then have n: "n = 3" and r: "snd (loop_result ?lps (35 / 100) rd n) = Inr ([], ramp rd n)"
      using ramped(6) loop_result_empty by blast+
    let ?ev = "CreateUrl p # fst (?lps (35 / 100)) @ fst (loop_result ?lps (35 / 100) rd 3)"
    have "search_page create_url title p rd trace = Some (trace @ ?ev, Inr ([], ramp rd 3))"
      using ramped(4) r unfolding n by simp
    moreover have "fetched ?ev = [p]"
      by (simp add: fetched_append lps_fetched loop_fetched)
    moreover have "length (thresholds ?ev) = 4"
      by (simp add: thresholds_append lps_thresholds loop_thresholds del: upt_Suc)
    ultimately show ?thesis by (rule that)
  qed
  have shift: "\<forall>i < length pages.
      create_url title (pages ! i) = Inr (page (pages ! i))
      \<and> snd (listing_product_similarity (page (pages ! i)) title (35 / 100)) = Inr []
      \<and> (\<forall>k. 1 \<le> k \<and> k \<le> 3 \<longrightarrow>
            snd (listing_product_similarity (page (pages ! i)) title
                   (attempt (35 / 100) (ramp rd 3) (3 * i + k))) = Inr [])"
  proof (intro allI impI)
    fix i assume i: "i < length pages"
    then have "Suc i < length (p # pages)" by simp
    from Cons.prems [rule_format, OF this]
    show "create_url title (pages ! i) = Inr (page (pages ! i))
      \<and> snd (listing_product_similarity (page (pages ! i)) title (35 / 100)) = Inr []
      \<and> (\<forall>k. 1 \<le> k \<and> k \<le> 3 \<longrightarrow>
            snd (listing_product_similarity (page (pages ! i)) title
                   (attempt (35 / 100) (ramp rd 3) (3 * i + k))) = Inr [])"
      by (simp add: attempt_shift add.assoc)
  qed
  from shift Cons.IH [where rd = "ramp rd 3" and trace = "trace @ ev"] obtain ev2 where
    rec: "search_pages create_url title pages (ramp rd 3) acc (trace @ ev) =
        Some ((trace @ ev) @ ev2, Inr acc)"
    and f2: "fetched ev2 = pages" and t2: "length (thresholds ev2) = 4 * length pages"
    by blast
  have "search_pages create_url title (p # pages) rd acc trace = Some (trace @ (ev @ ev2), Inr acc)"
    using rec by (simp add: acc sp)
  moreover have "fetched (ev @ ev2) = p # pages" using f f2 by (simp add: fetched_append)
  moreover have "length (thresholds (ev @ ev2)) = 4 * length (p # pages)"
    using t t2 by (simp add: thresholds_append)
  ultimately show ?case by blast
qed

text \<open>
  Claim C3. If each of the five pages is fetched and every filtering attempt on it, the
  base one at 0.35 and the three ramped ones, returns an empty set, then
  \<open>find_viable_product\<close> returns after exactly five page fetches (pages 0 to 4, each once,
  with four filtering attempts per page) and fails with \<open>NoProductsFound\<close>.
\<close>

theorem find_viable_product_all_pages_empty:
  assumes "\<forall>p < 5. create_url title p = Inr (page p)"
    and "\<forall>p < 5. snd (listing_product_similarity (page p) title (35 / 100)) = Inr []"
    and "\<forall>p < 5. \<forall>k. 1 \<le> k \<and> k \<le> 3 \<longrightarrow>
           snd (listing_product_similarity (page p) title
                  (max 0 (35 / 100 - ramp ramp_down (3 * p + k)))) = Inr []"
  shows "\<exists>trace. find_viable_product create_url title ramp_down = Some (trace, Inl NoProductsFound)
     \<and> fetched trace = [0, 1, 2, 3, 4] \<and> length (thresholds trace) = 20"
proof -
  have upt5: "[0..<5] = [0, 1, 2, 3, 4 :: nat]" by (simp add: upt_rec)
  have "\<forall>i < length [0..<5].
      create_url title ([0..<5] ! i) = Inr (page ([0..<5] ! i))
      \<and> snd (listing_product_similarity (page ([0..<5] ! i)) title (35 / 100)) = Inr []
      \<and> (\<forall>k. 1 \<le> k \<and> k \<le> 3 \<longrightarrow>
            snd (listing_product_similarity (page ([0..<5] ! i)) title
                   (attempt (35 / 100) ramp_down (3 * i + k))) = Inr [])"
    using assms by (simp add: attempt_def)
  from this search_pages_empty [where pages = "[0..<5]" and create_url = create_url
      and title = title and page = page and rd = ramp_down
      and acc = "([], [], [], [], [], [])" and trace = "[]"]
  obtain events where
    "search_pages create_url title [0..<5] ramp_down ([], [], [], [], [], []) [] =
       Some (events, Inr ([], [], [], [], [], []))"
    "fetched events = [0..<5]" "length (thresholds events) = 4 * length [0..<5]"
    by auto
  then show ?thesis by (simp add: find_viable_product_def upt5)
qed

theorem find_viable_product_all_pages_empty_witness:
  "\<exists>trace. find_viable_product (\<lambda>title page_number. Inr empty_page) ''x'' 0 =
       Some (trace, Inl NoProductsFound)
     \<and> fetched trace = [0, 1, 2, 3, 4] \<and> length (thresholds trace) = 20"
proof (rule find_viable_product_all_pages_empty [where page = "\<lambda>p. empty_page"])
  show "\<forall>p < 5. (\<lambda>title page_number. Inr empty_page) ''x'' p = Inr empty_page" by simp
  show "\<forall>p < 5. snd (listing_product_similarity empty_page ''x'' (35 / 100)) = Inr []"
    by (simp add: lps_empty)
  show "\<forall>p < 5. \<forall>k. 1 \<le> k \<and> k \<le> 3 \<longrightarrow>
           snd (listing_product_similarity empty_page ''x''
                  (max 0 (35 / 100 - ramp 0 (3 * p + k)))) = Inr []"
  proof (intro allI impI)
    fix p k :: nat
    have "0 \<le> ramp 0 (3 * p + k)" by (rule ramp_mono)
    then have "max 0 (35 / 100 - ramp 0 (3 * p + k)) \<le> 1" by simp
    then show "snd (listing_product_similarity empty_page ''x''
                  (max 0 (35 / 100 - ramp 0 (3 * p + k)))) = Inr []"
      by (simp add: lps_empty)
  qed
qed

section \<open>Candidates carry formatted strings\<close>


















end
